theory Spec2Isabelle
  imports Main "HOL-Library.Word"
begin

section \<open>Strings\<close>

text \<open>
  A JavaScript string is a sequence of UTF-16 code units; \<open>js\<close> embeds an ASCII literal.
  The empty string is the only falsy string.
\<close>

type_synonym jsstring = "16 word list"

definition js :: "string \<Rightarrow> jsstring" where
  "js s = map (\<lambda>c. of_nat (of_char c)) s"

text \<open>Decimal rendering of a number, as a template literal \<^verbatim>\<open>${n}\<close> does.\<close>

fun decimal :: "nat \<Rightarrow> jsstring" where
  "decimal n = (if n < 10 then [of_nat (48 + n)] else decimal (n div 10) @ [of_nat (48 + n mod 10)])"

section \<open>utils.js: sanitizeFilename\<close>

text \<open>
  \<^verbatim>\<open>name.replace(/[<>:"/\\|?*]/g, '').replace(/\s+/g, ' ').trim()\<close>

  The character class holds the nine code units
  \<open><\<close> 3C, \<open>>\<close> 3E, \<open>:\<close> 3A, the double quote 22, \<open>/\<close> 2F, the backslash 5C, \<open>|\<close> 7C, \<open>?\<close> 3F
  and \<open>*\<close> 2A. The class \<^verbatim>\<open>\s\<close> of a regular expression and the characters that
  \<^verbatim>\<open>trim()\<close> strips are the same set: the ECMAScript WhiteSpace and LineTerminator code
  points, all of them single code units.
\<close>

definition isForbidden :: "16 word \<Rightarrow> bool" where
  "isForbidden c \<longleftrightarrow> c \<in> {0x3C, 0x3E, 0x3A, 0x22, 0x2F, 0x5C, 0x7C, 0x3F, 0x2A}"

definition isWhiteSpace :: "16 word \<Rightarrow> bool" where
  "isWhiteSpace c \<longleftrightarrow>
     c \<in> {0x09, 0x0A, 0x0B, 0x0C, 0x0D, 0x20, 0xA0, 0x1680, 0x2028, 0x2029, 0x202F, 0x205F, 0x3000, 0xFEFF}
     \<or> (0x2000 \<le> c \<and> c \<le> 0x200A)"

function collapseWhiteSpace :: "jsstring \<Rightarrow> jsstring" where
  "collapseWhiteSpace [] = []"
| "collapseWhiteSpace (c # cs) =
     (if isWhiteSpace c then 0x20 # collapseWhiteSpace (dropWhile isWhiteSpace cs)
      else c # collapseWhiteSpace cs)"
  by pat_completeness auto
termination
  by (relation "measure length") (auto simp: less_Suc_eq_le length_dropWhile_le)

definition trim :: "jsstring \<Rightarrow> jsstring" where
  "trim s = rev (dropWhile isWhiteSpace (rev (dropWhile isWhiteSpace s)))"

definition sanitizeFilename :: "jsstring \<Rightarrow> jsstring" where
  "sanitizeFilename name = trim (collapseWhiteSpace (filter (\<lambda>c. \<not> isForbidden c) name))"

text \<open>
  \<^verbatim>\<open>epubExists\<close> (worker-manager.js, automate.js) and \<^verbatim>\<open>buildEpub\<close> (epub-builder.js) each
  compute \<^verbatim>\<open>`${sanitizeFilename(title)}.epub`\<close> and join it to the output directory.
\<close>

definition epubExists_filename :: "jsstring \<Rightarrow> jsstring" where
  "epubExists_filename title = sanitizeFilename title @ js ''.epub''"

definition buildEpub_filename :: "jsstring \<Rightarrow> jsstring" where
  "buildEpub_filename title = sanitizeFilename title @ js ''.epub''"

text \<open>
  A string is tidy when its white space consists of single spaces (code unit 20), none of
  them next to another white-space character: the shape \<open>collapseWhiteSpace\<close> produces.
\<close>

fun tidy :: "jsstring \<Rightarrow> bool" where
  "tidy [] = True"
| "tidy (c # cs) = ((isWhiteSpace c \<longrightarrow> c = 0x20 \<and> (cs = [] \<or> \<not> isWhiteSpace (hd cs))) \<and> tidy cs)"

section \<open>worker.js and automate.js: the Job\<close>

subsection \<open>Data\<close>

text \<open>
  \<^verbatim>\<open>fetchNovelDetail\<close> resolves to \<^verbatim>\<open>{ title, author, genres, description, coverUrl, chapters }\<close>,
  each chapter entry being \<^verbatim>\<open>{ title, url }\<close>. A fetched chapter is stored as
  \<^verbatim>\<open>{ title, content }\<close>.
\<close>

record chapter_ref =
  ref_title :: jsstring
  ref_url :: jsstring

record novel =
  novel_title :: jsstring
  novel_author :: jsstring
  novel_genres :: "jsstring list"
  novel_description :: jsstring
  novel_coverUrl :: jsstring
  novel_chapters :: "chapter_ref list"

record chapter_obj =
  ch_title :: jsstring
  ch_content :: jsstring

text \<open>
  An element of the array \<^verbatim>\<open>chapters = new Array(n)\<close>: a hole (never assigned), \<^verbatim>\<open>null\<close>
  (the retry sentinel) or a chapter object.
\<close>

datatype slot = Hole | Null | Filled chapter_obj

text \<open>
  The environment of a Job. \<^verbatim>\<open>fetchChapterContent(url)\<close> is a network call: its result in pass
  \<open>p\<close> (0 for the initial pass, 1 and 2 for the retry passes) for the chapter at index \<open>i\<close>
  is given by a function of the environment, \<open>None\<close> when the promise rejects. Every call
  is taken to settle; a call that never settles is the subject of the Fetcher section.
  The errors that can leave a Job as an exception are collected in \<open>js_error\<close>.
\<close>

type_synonym fetcher = "nat \<Rightarrow> nat \<Rightarrow> jsstring \<Rightarrow> chapter_obj option"

datatype js_error = TypeError | Rejected jsstring

datatype number = NaN | Num int

fun truthy :: "number \<Rightarrow> bool" where
  "truthy NaN = False"
| "truthy (Num n) = (n \<noteq> 0)"

fun greater :: "nat \<Rightarrow> number \<Rightarrow> bool" where
  "greater n NaN = False"
| "greater n (Num m) = (int n > m)"

record workerData =
  delayMs :: number
  concurrency :: number
  maxChapters :: number
  outputDir :: jsstring

record env =
  fetchNovelDetail :: "js_error + novel"
  fetchChapterContent :: fetcher
  pLimit :: bool
  buildEpub :: "slot list \<Rightarrow> js_error option"

text \<open>
  The state of the fetching phase: the array, and the log of the calls of
  \<^verbatim>\<open>fetchChapterContent\<close> made so far as pairs (pass, index). The log is not a variable of the
  source; it records which Fragment Fetch Tasks ran.
\<close>

record job =
  chapters :: "slot list"
  calls :: "(nat \<times> nat) list"

subsection \<open>Fragment Fetch Task\<close>

text \<open>
  The \<^verbatim>\<open>try\<close> block of a task, the same in the initial pass and in a retry pass:
  \<^verbatim>\<open>
  try {
    const content = await fetchChapterContent(ch.url);
    if (!content.content || content.content.trim() === '') throw new Error('Empty content');
    chapters[i] = { title: content.title || ch.title, content: content.content };
  } catch { chapters[i] = null; }
  \<close>
  \<open>fetchTask\<close> is the value written to \<open>chapters[i]\<close>; \<open>runTask\<close> writes it and logs the call.
  The progress counter, the progress messages and the delays do not touch the array and
  are left out.
\<close>

definition fetchTask :: "fetcher \<Rightarrow> nat \<Rightarrow> nat \<Rightarrow> chapter_ref \<Rightarrow> slot" where
  "fetchTask fch pass i ch =
     (case fch pass i (ref_url ch) of
        None \<Rightarrow> Null
      | Some c \<Rightarrow>
          if ch_content c = [] \<or> trim (ch_content c) = [] then Null
          else Filled \<lparr>ch_title = (if ch_title c \<noteq> [] then ch_title c else ref_title ch),
                       ch_content = ch_content c\<rparr>)"

definition runTask :: "fetcher \<Rightarrow> nat \<Rightarrow> job \<Rightarrow> nat \<times> chapter_ref \<Rightarrow> job" where
  "runTask fch pass st ic =
     \<lparr>chapters = (chapters st)[fst ic := fetchTask fch pass (fst ic) (snd ic)],
      calls = calls st @ [(pass, fst ic)]\<rparr>"

subsection \<open>Initial pass\<close>

text \<open>
  \<^verbatim>\<open>novel.chapters.map((ch, i) => limit(async () => { ... }))\<close> followed by
  \<^verbatim>\<open>await Promise.all(tasks)\<close>. The limiter runs every task once; a task writes only its own
  index, so the array after \<^verbatim>\<open>Promise.all\<close> does not depend on the interleaving, and the
  tasks are run here in the order in which they are queued.
\<close>

definition initialPass :: "fetcher \<Rightarrow> novel \<Rightarrow> job" where
  "initialPass fch nov =
     foldl (runTask fch 0)
       \<lparr>chapters = replicate (length (novel_chapters nov)) Hole, calls = []\<rparr>
       (enumerate 0 (novel_chapters nov))"

subsection \<open>Retry Controller\<close>

text \<open>
  \<^verbatim>\<open>chapters.map((ch, i) => (ch === null ? i : -1)).filter(i => i !== -1)\<close>.
  \<^verbatim>\<open>map\<close> and \<^verbatim>\<open>filter\<close> skip holes.
\<close>

definition failedIndices :: "slot list \<Rightarrow> int list" where
  "failedIndices chs =
     filter (\<lambda>i. i \<noteq> - 1)
       (concat (map (\<lambda>(i, ch). case ch of Hole \<Rightarrow> [] | Null \<Rightarrow> [int i] | Filled c \<Rightarrow> [- 1])
          (enumerate 0 chs)))"

text \<open>
  A retry task reads \<^verbatim>\<open>const ch = novel.chapters[i]\<close> before its \<^verbatim>\<open>try\<close> block; were \<open>i\<close>
  out of range, \<^verbatim>\<open>ch.url\<close> would throw inside the block, before any fetch, and \<^verbatim>\<open>null\<close>
  would be written.
\<close>

definition retryTask :: "fetcher \<Rightarrow> novel \<Rightarrow> nat \<Rightarrow> job \<Rightarrow> int \<Rightarrow> job" where
  "retryTask fch nov pass st i =
     (if nat i < length (novel_chapters nov)
      then runTask fch pass st (nat i, novel_chapters nov ! nat i)
      else \<lparr>chapters = (chapters st)[nat i := Null], calls = calls st\<rparr>)"

definition retryPass :: "fetcher \<Rightarrow> novel \<Rightarrow> nat \<Rightarrow> int list \<Rightarrow> job \<Rightarrow> job" where
  "retryPass fch nov pass failed st =
     foldl (retryTask fch nov pass) st failed"

text \<open>
  \<^verbatim>\<open>
  for (let pass = 1; pass <= 2; pass++) {
    const failedIndices = ...;
    if (failedIndices.length === 0) break;
    await delay(delayMs * 2);
    const retryTasks = failedIndices.map(i => limit(async () => { ... }));
    await Promise.all(retryTasks);
  }
  \<close>
\<close>

function retryLoop :: "fetcher \<Rightarrow> novel \<Rightarrow> nat \<Rightarrow> job \<Rightarrow> job" where
  "retryLoop fch nov pass st =
     (if pass \<le> 2 then
        (let failed = failedIndices (chapters st) in
         if length failed = 0 then st
         else retryLoop fch nov (pass + 1)
                (retryPass fch nov pass failed st))
      else st)"
  by pat_completeness auto
termination
  by (relation "measure (\<lambda>(f, n, pass, st). 3 - pass)") auto

subsection \<open>Placeholders\<close>

text \<open>
  \<^verbatim>\<open>
  let failedCount = 0;
  for (let i = 0; i < chapters.length; i++) {
    if (chapters[i] === null) {
      failedCount++;
      chapters[i] = { title: novel.chapters[i].title || `Chapter ${i + 1}`,
                      content: `<p>[Failed to fetch after retries]</p>` };
    }
  }
  \<close>
  Reading \<^verbatim>\<open>novel.chapters[i].title\<close> out of range throws a TypeError.
\<close>

definition placeholder :: "novel \<Rightarrow> nat \<Rightarrow> chapter_obj" where
  "placeholder nov i =
     \<lparr>ch_title = (if ref_title (novel_chapters nov ! i) \<noteq> [] then ref_title (novel_chapters nov ! i)
                  else js ''Chapter '' @ decimal (i + 1)),
      ch_content = js ''<p>[Failed to fetch after retries]</p>''\<rparr>"

function fillFrom :: "novel \<Rightarrow> nat \<Rightarrow> slot list \<Rightarrow> nat \<Rightarrow> js_error + slot list \<times> nat" where
  "fillFrom nov i chs failedCount =
     (if i < length chs then
        (if chs ! i = Null then
           (if i < length (novel_chapters nov)
            then fillFrom nov (i + 1) (chs[i := Filled (placeholder nov i)]) (failedCount + 1)
            else Inl TypeError)
         else fillFrom nov (i + 1) chs failedCount)
      else Inr (chs, failedCount))"
  by pat_completeness auto
termination
  by (relation "measure (\<lambda>(nov, i, chs, c). length chs - i)") auto

subsection \<open>downloadNovel\<close>

text \<open>
  The statements from \<^verbatim>\<open>new Array(novel.chapters.length)\<close> to the end of the placeholder loop
  are the same in worker.js and in automate.js (which differ in progress display only).
\<close>

definition fetchChapters :: "fetcher \<Rightarrow> novel \<Rightarrow> (js_error + slot list \<times> nat) \<times> (nat \<times> nat) list" where
  "fetchChapters fch nov =
     (let st = retryLoop fch nov 1 (initialPass fch nov)
      in (fillFrom nov 0 (chapters st) 0, calls st))"

text \<open>
  What a run of \<^verbatim>\<open>downloadNovel\<close> leaves behind: the value it returns or the error it throws,
  the log of fetches, and the array handed to \<^verbatim>\<open>buildEpub\<close> if that call was reached.
  In the environment, \<open>pLimit\<close> tells whether \<^verbatim>\<open>pLimit(concurrency)\<close> returned a limiter
  (the library throws on a concurrency that is not a positive integer), and \<open>buildEpub\<close>
  is the outcome of the Document Assembler on the array, \<open>None\<close> when it resolves.
\<close>

datatype job_error = CouldNotFind | NoChaptersFound | ExceedsLimit | Thrown js_error

record job_result =
  success :: bool
  skipped :: bool
  error :: "job_error option"
  title :: "jsstring option"
  totalChapters :: "nat option"
  failedChapters :: "nat option"

record 'r job_run =
  outcome :: "js_error + 'r"
  fetches :: "(nat \<times> nat) list"
  assembled :: "slot list option"

definition failure :: "job_error \<Rightarrow> bool \<Rightarrow> job_result" where
  "failure e sk = \<lparr>success = False, skipped = sk, error = Some e, title = None,
                   totalChapters = None, failedChapters = None\<rparr>"

text \<open>worker.js, \<^verbatim>\<open>downloadNovel(slug, listTitle)\<close>.\<close>

definition downloadNovel :: "workerData \<Rightarrow> env \<Rightarrow> job_result job_run" where
  "downloadNovel cfg e =
     (case fetchNovelDetail e of
        Inl err \<Rightarrow> \<lparr>outcome = Inl err, fetches = [], assembled = None\<rparr>
      | Inr nov \<Rightarrow>
          if novel_title nov = [] then
            \<lparr>outcome = Inr (failure CouldNotFind False), fetches = [], assembled = None\<rparr>
          else if length (novel_chapters nov) = 0 then
            \<lparr>outcome = Inr (failure NoChaptersFound False), fetches = [], assembled = None\<rparr>
          else if truthy (maxChapters cfg) \<and> greater (length (novel_chapters nov)) (maxChapters cfg) then
            \<lparr>outcome = Inr (failure ExceedsLimit True), fetches = [], assembled = None\<rparr>
          else if \<not> pLimit e then
            \<lparr>outcome = Inl TypeError, fetches = [], assembled = None\<rparr>
          else
            (case fetchChapters (fetchChapterContent e) nov of
               (Inl err, cs) \<Rightarrow> \<lparr>outcome = Inl err, fetches = cs, assembled = None\<rparr>
             | (Inr (chs, failedCount), cs) \<Rightarrow>
                 (case buildEpub e chs of
                    Some err \<Rightarrow> \<lparr>outcome = Inl err, fetches = cs, assembled = Some chs\<rparr>
                  | None \<Rightarrow>
                      \<lparr>outcome = Inr \<lparr>success = True, skipped = False, error = None,
                                       title = Some (novel_title nov),
                                       totalChapters = Some (length (novel_chapters nov)),
                                       failedChapters = Some failedCount\<rparr>,
                       fetches = cs, assembled = Some chs\<rparr>)))"

text \<open>
  automate.js, \<^verbatim>\<open>downloadNovel(slug, delayMs, concurrency, maxChapters)\<close>: the same phases,
  returning \<^verbatim>\<open>false\<close> from each early exit and \<^verbatim>\<open>true\<close> at the end.
\<close>

definition downloadNovelAutomate :: "number \<Rightarrow> env \<Rightarrow> bool job_run" where
  "downloadNovelAutomate maxCh e =
     (case fetchNovelDetail e of
        Inl err \<Rightarrow> \<lparr>outcome = Inl err, fetches = [], assembled = None\<rparr>
      | Inr nov \<Rightarrow>
          if novel_title nov = [] then
            \<lparr>outcome = Inr False, fetches = [], assembled = None\<rparr>
          else if length (novel_chapters nov) = 0 then
            \<lparr>outcome = Inr False, fetches = [], assembled = None\<rparr>
          else if truthy maxCh \<and> greater (length (novel_chapters nov)) maxCh then
            \<lparr>outcome = Inr False, fetches = [], assembled = None\<rparr>
          else if \<not> pLimit e then
            \<lparr>outcome = Inl TypeError, fetches = [], assembled = None\<rparr>
          else
            (case fetchChapters (fetchChapterContent e) nov of
               (Inl err, cs) \<Rightarrow> \<lparr>outcome = Inl err, fetches = cs, assembled = None\<rparr>
             | (Inr (chs, failedCh), cs) \<Rightarrow>
                 (case buildEpub e chs of
                    Some err \<Rightarrow> \<lparr>outcome = Inl err, fetches = cs, assembled = Some chs\<rparr>
                  | None \<Rightarrow> \<lparr>outcome = Inr True, fetches = cs, assembled = Some chs\<rparr>)))"

text \<open>
  The message handler of worker.js posts the returned object as the \<^verbatim>\<open>result\<close> message, or
  \<^verbatim>\<open>{ success: false, error: err.message }\<close> when \<^verbatim>\<open>downloadNovel\<close> throws.
\<close>

definition resultMessage :: "job_result job_run \<Rightarrow> job_result" where
  "resultMessage r = (case outcome r of Inr res \<Rightarrow> res | Inl err \<Rightarrow> failure (Thrown err) False)"

subsection \<open>A sample Job\<close>

text \<open>
  Three chapters: the first is fetched at once, the second never, the third comes back
  blank in the initial pass and is fetched in the first retry pass.
\<close>

definition demoNovel :: novel where
  "demoNovel = \<lparr>novel_title = js ''T'', novel_author = js ''A'', novel_genres = [],
     novel_description = [], novel_coverUrl = [],
     novel_chapters = [\<lparr>ref_title = js ''one'', ref_url = js ''u0''\<rparr>,
                       \<lparr>ref_title = [], ref_url = js ''u1''\<rparr>,
                       \<lparr>ref_title = js ''three'', ref_url = js ''u2''\<rparr>]\<rparr>"

definition demoFetch :: fetcher where
  "demoFetch pass i url =
     (if i = 0 then Some \<lparr>ch_title = [], ch_content = js ''<p>a</p>''\<rparr>
      else if i = 2 \<and> pass = 0 then Some \<lparr>ch_title = js ''t'', ch_content = js '' ''\<rparr>
      else if i = 2 \<and> pass = 1 then Some \<lparr>ch_title = js ''t'', ch_content = js ''<p>c</p>''\<rparr>
      else None)"

definition demoEnv :: env where
  "demoEnv = \<lparr>fetchNovelDetail = Inr demoNovel, fetchChapterContent = demoFetch,
               pLimit = True, buildEpub = (\<lambda>chs. None)\<rparr>"

definition demoData :: "number \<Rightarrow> workerData" where
  "demoData m = \<lparr>delayMs = Num 1000, concurrency = Num 3, maxChapters = m, outputDir = js ''output''\<rparr>"

section \<open>utils.js: the Fetcher\<close>

text \<open>
  The network answers a request with a request-level failure (the \<^verbatim>\<open>error\<close>, \<^verbatim>\<open>timeout\<close> or
  socket-error event, carrying a message) or with a response: status code, \<^verbatim>\<open>Location\<close>
  header if any, and the body or the message of a stream error. The answer may depend on
  the moment of the request, counted as the number of requests issued before it.

  When the response is a redirect, \<^verbatim>\<open>fetchWithBypassRaw\<close> neither reads the response nor
  marks its promise settled, and the \<^verbatim>\<open>timeout\<close> and \<^verbatim>\<open>error\<close> handlers of the request stay
  armed while the redirect chain runs. Whether and when one of them fires is the
  network's to say: the last component of a response is \<open>None\<close> if none ever fires, and
  \<open>Some (k, msg)\<close> if one fires with message \<open>msg\<close> once the chain has had \<open>k\<close> further
  requests answered.
\<close>

datatype response =
    RequestError jsstring
  | Response nat "jsstring option" "jsstring + jsstring" "(nat \<times> jsstring) option"

type_synonym network = "nat \<Rightarrow> jsstring \<Rightarrow> response"

text \<open>
  \<^verbatim>\<open>new URL(res.headers.location, url).href\<close>, a function of the location and the base. It
  throws on a malformed location; thrown inside the response callback, the error leaves
  the promise unsettled.
\<close>

type_synonym resolver = "jsstring \<Rightarrow> jsstring \<Rightarrow> jsstring option"

text \<open>
  The earliest armed handler among the requests a chain has already made: the number of
  requests that will still be answered before it fires, and its message. A request
  answered moves it one step (\<open>tick\<close>); a redirect response adds its own (\<open>nearest\<close>).
\<close>

type_synonym timer = "(nat \<times> jsstring) option"

definition fires :: "timer \<Rightarrow> bool" where
  "fires timer = (case timer of None \<Rightarrow> False | Some (k, msg) \<Rightarrow> k = 0)"

definition tick :: "timer \<Rightarrow> timer" where
  "tick timer = (case timer of None \<Rightarrow> None | Some (k, msg) \<Rightarrow> Some (k - 1, msg))"

definition nearest :: "timer \<Rightarrow> timer \<Rightarrow> timer" where
  "nearest outer own =
     (case outer of
        None \<Rightarrow> own
      | Some (k, msg) \<Rightarrow>
          (case own of None \<Rightarrow> outer | Some (j, msg') \<Rightarrow> if j < k then own else outer))"

text \<open>
  \<^verbatim>\<open>
  export function fetchWithBypassRaw(url) {
    return new Promise((resolve, reject) => {
      ...
      let settled = false;
      const fail = (err) => { if (!settled) { settled = true; reject(err); } };
      const req = mod.request(url, { ... timeout: 30000 ... }, (res) => {
        if (res.statusCode >= 300 && res.statusCode < 400 && res.headers.location) {
          const redirectUrl = new URL(res.headers.location, url).href;
          fetchWithBypassRaw(redirectUrl).then(resolve).catch(fail);
          return;
        }
        if (res.statusCode < 200 || res.statusCode >= 300) {
          fail(new Error(`HTTP ${res.statusCode} for ${url}`));
          return;
        }
        ... resolve(Buffer.concat(chunks).toString('utf-8')) ... res.on('error', fail);
      });
      req.on('error', fail);
      req.on('timeout', () => { req.destroy(); fail(new Error(`Timeout for ${url}`)); });
      ...
    });
  }
  \<close>
  The outermost promise settles with the first of: the outcome of the innermost call, or
  the rejection by an armed handler of a request made on the way (a rejection of an inner
  promise reaches the outer ones through \<^verbatim>\<open>.catch(fail)\<close>). The model carries the earliest
  armed handler down the chain. It settles with \<open>Inl\<close> of the error message or \<open>Inr\<close> of the
  body, together with the request count after the call; \<open>None\<close> is a promise that never
  settles.
\<close>

partial_function (option) fetchWithBypassRaw ::
    "network \<Rightarrow> resolver \<Rightarrow> timer \<Rightarrow> nat \<Rightarrow> jsstring \<Rightarrow> ((jsstring + jsstring) \<times> nat) option" where
  "fetchWithBypassRaw net newURL timer t url =
     (if fires timer then Some (Inl (snd (the timer)), t + 1)
      else
        (case net t url of
           RequestError msg \<Rightarrow> Some (Inl msg, t + 1)
         | Response statusCode location body stall \<Rightarrow>
             if 300 \<le> statusCode \<and> statusCode < 400 \<and> location \<noteq> None \<and> location \<noteq> Some [] then
               (case newURL (the location) url of
                  None \<Rightarrow> None
                | Some redirectUrl \<Rightarrow>
                    fetchWithBypassRaw net newURL (nearest (tick timer) stall) (t + 1) redirectUrl)
             else if statusCode < 200 \<or> 300 \<le> statusCode then
               Some (Inl (js ''HTTP '' @ decimal statusCode @ js '' for '' @ url), t + 1)
             else Some (body, t + 1)))"

declare fetchWithBypassRaw.simps [code]

text \<open>
  \<^verbatim>\<open>
  export async function retry(fn, retries = 5, delayMs = 3000) {
    for (let i = 0; i <= retries; i++) {
      try { return await fn(); }
      catch (err) {
        if (i === retries) throw err;
        ... await delay(backoff);
      }
    }
  }
  \<close>
  with \<^verbatim>\<open>fn = () => fetchWithBypassRaw(url)\<close>, as every caller in scraper.js has it. The
  back-off delay and the log lines between two attempts change no value and are left
  out. The result records how the call settled (\<open>Inr None\<close> is the \<^verbatim>\<open>undefined\<close> of a loop that
  falls through), the request count, and the number of attempts made.
\<close>

record fetched =
  settled :: "jsstring + jsstring option"
  requests :: nat
  attempts :: nat

function retryFrom ::
    "network \<Rightarrow> resolver \<Rightarrow> jsstring \<Rightarrow> nat \<Rightarrow> nat \<Rightarrow> nat \<Rightarrow> fetched option" where
  "retryFrom net newURL url retries i t =
     (if i \<le> retries then
        (case fetchWithBypassRaw net newURL None t url of
           None \<Rightarrow> None
         | Some (Inr body, t') \<Rightarrow> Some \<lparr>settled = Inr (Some body), requests = t', attempts = i + 1\<rparr>
         | Some (Inl err, t') \<Rightarrow>
             if i = retries then Some \<lparr>settled = Inl err, requests = t', attempts = i + 1\<rparr>
             else retryFrom net newURL url retries (i + 1) t')
      else Some \<lparr>settled = Inr None, requests = t, attempts = i\<rparr>)"
  by pat_completeness auto
termination
  by (relation "measure (\<lambda>(net, newURL, url, retries, i, t). Suc retries - i)") auto

definition retry :: "network \<Rightarrow> resolver \<Rightarrow> jsstring \<Rightarrow> nat \<Rightarrow> fetched option" where
  "retry net newURL url t = retryFrom net newURL url 5 0 t"

subsection \<open>Sample networks\<close>

text \<open>
  \<open>cycle\<close>: \<open>/a\<close> redirects to \<open>/b\<close> and everything else to \<open>/a\<close>, and no handler ever fires.
  \<open>stalled\<close>: the same cycle, every request timing out after two further answers.
  \<open>chain\<close>: every URL shorter than eight characters redirects to a longer one. \<open>flaky\<close>: the
  first two requests are answered 503. Locations are absolute.
\<close>

definition absolute :: resolver where
  "absolute location base = Some location"

definition cycle :: network where
  "cycle t url = (if url = js ''/a'' then Response 302 (Some (js ''/b'')) (Inr []) None
                  else Response 301 (Some (js ''/a'')) (Inr []) None)"

definition stalled :: network where
  "stalled t url = (if url = js ''/a'' then Response 302 (Some (js ''/b'')) (Inr []) (Some (2, js ''Timeout for /a''))
                  else Response 301 (Some (js ''/a'')) (Inr []) (Some (2, js ''Timeout for /b'')))"

definition chain :: network where
  "chain t url = (if length url < 8 then Response 302 (Some (url @ js ''x'')) (Inr []) None
                  else Response 200 None (Inr (js ''ok'')) None)"

definition flaky :: network where
  "flaky t url = (if t < 2 then Response 503 None (Inr []) None
                  else Response 200 None (Inr (js ''ok'')) None)"

section \<open>worker-manager.js: the Worker Pool Coordinator\<close>

subsection \<open>State\<close>

text \<open>
  A Worker object is known by its reference; the number given to \<^verbatim>\<open>worker._id\<close> is kept in
  \<open>ident\<close>. A queued job is a listing entry \<^verbatim>\<open>{ slug, title }\<close>.
\<close>

type_synonym worker = nat

record listed =
  slug :: jsstring
  listTitle :: jsstring

text \<open>
  The fields of \<^verbatim>\<open>WorkerPool\<close> (\<open>pool_size\<close> is \<^verbatim>\<open>this.size\<close>, the four \<open>stats_\<close> fields are
  \<^verbatim>\<open>this.stats\<close>, \<open>resolveAllDone\<close> holds the resolver of a pending promise, named by the
  number of the promise), followed by what the Coordinator does not store:
  \<^item> \<open>ident\<close>, the \<^verbatim>\<open>_id\<close> of each Worker object, and \<open>spawned\<close>, the number of Worker
    objects constructed so far (the next one gets this number as its reference);
  \<^item> \<open>alive\<close>: the Worker has not raised its \<^verbatim>\<open>error\<close> event;
  \<^item> \<open>starting\<close>: the replacements constructed by \<^verbatim>\<open>_handleError\<close> whose \<^verbatim>\<open>ready\<close> message
    has not been handled;
  \<^item> \<open>holding\<close>: for each Worker, the \<^verbatim>\<open>download\<close> messages posted to it less the
    \<^verbatim>\<open>result\<close> messages received from it;
  \<^item> \<open>promises\<close>, the number of promises \<^verbatim>\<open>waitUntilDone\<close> has returned, and \<open>resolved\<close>,
    the promises resolved so far, one entry for each resolution.
\<close>

record pool =
  pool_size :: nat
  workers :: "worker list"
  idle :: "worker list"
  queue :: "listed list"
  stats_succeeded :: int
  stats_failed :: int
  stats_skipped :: int
  stats_inProgress :: int
  totalQueued :: nat
  resolveAllDone :: "nat option"
  ident :: "worker \<Rightarrow> nat"
  spawned :: nat
  alive :: "worker \<Rightarrow> bool"
  starting :: "worker list"
  holding :: "worker \<Rightarrow> nat"
  promises :: nat
  resolved :: "nat list"

text \<open>
  The messages a Worker posts, and what can happen to the Coordinator: a call of
  \<^verbatim>\<open>enqueue\<close> or \<^verbatim>\<open>waitUntilDone\<close>, a message from a Worker, the \<^verbatim>\<open>error\<close> event of a
  Worker (a fault), the callback of \<^verbatim>\<open>readyP.then\<close> for a replacement, and an \<^verbatim>\<open>exit\<close> event.
\<close>

datatype message = ReadyMsg | ProgressMsg | ResultMsg job_result

datatype event =
    Enqueue "listed list"
  | WaitUntilDone
  | Message worker message
  | Fault worker
  | Ready worker
  | Exit worker int

subsection \<open>Handlers\<close>

text \<open>
  \<^verbatim>\<open>start()\<close> constructs \<^verbatim>\<open>size\<close> Workers with \<^verbatim>\<open>_id = i + 1\<close>, waits for the \<^verbatim>\<open>ready\<close>
  message of each and then sets \<^verbatim>\<open>this.idle = [...this.workers]\<close>. \<open>start n\<close> is the pool at
  that moment; \<^verbatim>\<open>main\<close> calls \<^verbatim>\<open>enqueue\<close> and \<^verbatim>\<open>waitUntilDone\<close> only after
  \<^verbatim>\<open>await pool.start()\<close>.
\<close>

definition start :: "nat \<Rightarrow> pool" where
  "start n =
     \<lparr>pool_size = n, workers = [0..<n], idle = [0..<n], queue = [],
      stats_succeeded = 0, stats_failed = 0, stats_skipped = 0, stats_inProgress = 0,
      totalQueued = 0, resolveAllDone = None,
      ident = (\<lambda>w. if w < n then w + 1 else 0), spawned = n, alive = (\<lambda>w. w < n),
      starting = [], holding = (\<lambda>w. 0), promises = 0, resolved = []\<rparr>"

text \<open>
  \<^verbatim>\<open>
  _dispatch() {
    while (this.idle.length > 0 && this.queue.length > 0) {
      const worker = this.idle.shift();
      const novel = this.queue.shift();
      this.stats.inProgress++;
      worker.postMessage({ type: 'download', slug: novel.slug, title: novel.title });
    }
  }
  \<close>
\<close>

function dispatch :: "pool \<Rightarrow> pool" where
  "dispatch s =
     (if length (idle s) > 0 \<and> length (queue s) > 0 then
        (let worker = hd (idle s); novel = hd (queue s)
         in dispatch (s\<lparr>idle := tl (idle s), queue := tl (queue s),
                        stats_inProgress := stats_inProgress s + 1,
                        holding := (holding s)(worker := holding s worker + 1)\<rparr>))
      else s)"
  by pat_completeness auto
termination
  by (relation "measure (\<lambda>s. length (queue s))") auto

text \<open>
  \<^verbatim>\<open>enqueue(novels) { this.queue.push(...novels); this.totalQueued = this.queue.length;
  this._dispatch(); }\<close>
\<close>

definition enqueue :: "listed list \<Rightarrow> pool \<Rightarrow> pool" where
  "enqueue novels s =
     dispatch (s\<lparr>queue := queue s @ novels, totalQueued := length (queue s @ novels)\<rparr>)"

text \<open>
  \<^verbatim>\<open>
  waitUntilDone() {
    if (this.stats.inProgress === 0 && this.queue.length === 0) return Promise.resolve();
    return new Promise((resolve) => { this._resolveAllDone = resolve; });
  }
  _checkDone() {
    if (this.stats.inProgress === 0 && this.queue.length === 0 && this._resolveAllDone) {
      this._resolveAllDone();
      this._resolveAllDone = null;
    }
  }
  \<close>
\<close>

definition waitUntilDone :: "pool \<Rightarrow> pool" where
  "waitUntilDone s =
     (if stats_inProgress s = 0 \<and> length (queue s) = 0
      then s\<lparr>promises := promises s + 1, resolved := resolved s @ [promises s]\<rparr>
      else s\<lparr>promises := promises s + 1, resolveAllDone := Some (promises s)\<rparr>)"

definition checkDone :: "pool \<Rightarrow> pool" where
  "checkDone s =
     (case resolveAllDone s of
        Some p \<Rightarrow>
          if stats_inProgress s = 0 \<and> length (queue s) = 0
          then s\<lparr>resolved := resolved s @ [p], resolveAllDone := None\<rparr>
          else s
      | None \<Rightarrow> s)"

text \<open>
  \<^verbatim>\<open>_handleMessage(worker, msg)\<close>: a \<^verbatim>\<open>progress\<close> message is printed; a \<^verbatim>\<open>result\<close> message
  decrements \<^verbatim>\<open>inProgress\<close>, is counted as succeeded, skipped or failed, and then
  \<^verbatim>\<open>this.idle.push(worker); this._dispatch(); this._checkDone();\<close>. Any other message is
  ignored.
\<close>

definition handleMessage :: "worker \<Rightarrow> message \<Rightarrow> pool \<Rightarrow> pool" where
  "handleMessage worker msg s =
     (case msg of
        ProgressMsg \<Rightarrow> s
      | ResultMsg res \<Rightarrow>
          (let s1 = s\<lparr>stats_inProgress := stats_inProgress s - 1,
                       holding := (holding s)(worker := holding s worker - 1)\<rparr>;
               s2 = (if success res then s1\<lparr>stats_succeeded := stats_succeeded s1 + 1\<rparr>
                     else if skipped res then s1\<lparr>stats_skipped := stats_skipped s1 + 1\<rparr>
                     else s1\<lparr>stats_failed := stats_failed s1 + 1\<rparr>)
           in checkDone (dispatch (s2\<lparr>idle := idle s2 @ [worker]\<rparr>)))
      | ReadyMsg \<Rightarrow> s)"

text \<open>
  \<^verbatim>\<open>
  _handleError(worker, err) {
    this.stats.inProgress--;
    this.stats.failed++;
    const idx = this.workers.indexOf(worker);
    if (idx !== -1) {
      const newWorker = new Worker(...);
      newWorker._id = worker._id;
      ...
      this.workers[idx] = newWorker;
      const readyP = new Promise(...);   // resolved by the ready message of newWorker
      readyP.then(() => { this.idle.push(newWorker); this._dispatch(); this._checkDone(); });
    }
  }
  \<close>
  \<open>onReady\<close> is the callback of \<^verbatim>\<open>readyP.then\<close>.
\<close>

fun indexOf :: "worker list \<Rightarrow> worker \<Rightarrow> int" where
  "indexOf [] w = - 1"
| "indexOf (x # xs) w = (if x = w then 0 else (let i = indexOf xs w in if i = - 1 then - 1 else i + 1))"

definition handleError :: "worker \<Rightarrow> pool \<Rightarrow> pool" where
  "handleError worker s =
     (let s1 = s\<lparr>stats_inProgress := stats_inProgress s - 1, stats_failed := stats_failed s + 1,
                  alive := (alive s)(worker := False)\<rparr>;
          idx = indexOf (workers s1) worker
      in if idx \<noteq> - 1 then
           (let newWorker = spawned s1
            in s1\<lparr>spawned := spawned s1 + 1,
                   ident := (ident s1)(newWorker := ident s1 worker),
                   alive := (alive s1)(newWorker := True),
                   workers := (workers s1)[nat idx := newWorker],
                   starting := starting s1 @ [newWorker]\<rparr>)
         else s1)"

definition onReady :: "worker \<Rightarrow> pool \<Rightarrow> pool" where
  "onReady newWorker s =
     checkDone (dispatch (s\<lparr>starting := removeAll newWorker (starting s),
                             idle := idle s @ [newWorker]\<rparr>))"

subsection \<open>Runs\<close>

text \<open>\<^verbatim>\<open>_handleExit\<close> only logs.\<close>

fun handle :: "event \<Rightarrow> pool \<Rightarrow> pool" where
  "handle (Enqueue novels) s = enqueue novels s"
| "handle WaitUntilDone s = waitUntilDone s"
| "handle (Message w msg) s = handleMessage w msg s"
| "handle (Fault w) s = handleError w s"
| "handle (Ready w) s = onReady w s"
| "handle (Exit w code) s = s"

text \<open>
  What the Workers can do, from worker.js: a Worker posts \<^verbatim>\<open>ready\<close> when it is loaded; it
  posts \<^verbatim>\<open>progress\<close> messages and exactly one \<^verbatim>\<open>result\<close> message for each \<^verbatim>\<open>download\<close>
  message it receives, so a \<^verbatim>\<open>progress\<close> or \<^verbatim>\<open>result\<close> message comes from a Worker with an
  unanswered \<^verbatim>\<open>download\<close> (it may be delivered after that Worker's \<^verbatim>\<open>error\<close> event). A
  fault may strike any live Worker, busy, idle or still starting, and strikes it once. The
  callback of \<^verbatim>\<open>readyP.then\<close> runs once, for a live replacement that is still starting.
\<close>

fun enabled :: "pool \<Rightarrow> event \<Rightarrow> bool" where
  "enabled s (Enqueue novels) = True"
| "enabled s WaitUntilDone = True"
| "enabled s (Message w ReadyMsg) = True"
| "enabled s (Message w msg) = (holding s w > 0)"
| "enabled s (Fault w) = alive s w"
| "enabled s (Ready w) = (alive s w \<and> w \<in> set (starting s))"
| "enabled s (Exit w code) = True"

text \<open>
  A run handles a list of events in order from a given pool; it is \<open>None\<close> when an event
  is not possible where it occurs. The reachable pools are the results of the runs from
  \<open>start n\<close>.
\<close>

fun run :: "event list \<Rightarrow> pool \<Rightarrow> pool option" where
  "run [] s = Some s"
| "run (e # es) s = (if enabled s e then run es (handle e s) else None)"

subsection \<open>A sample run\<close>

definition novelA :: listed where "novelA = \<lparr>slug = js ''a'', listTitle = js ''A''\<rparr>"


subsection \<open>The invariant\<close>

text \<open>
  Jobs in flight, idle Workers and starting replacements together never outnumber the
  pool; idle and starting Workers are distinct, hold no job and have been constructed; no
  Worker holds more than one job; a reference not yet handed out belongs to no Worker; a
  live Worker is in \<^verbatim>\<open>this.workers\<close>; no promise is resolved twice, and a pending promise is
  not resolved.
\<close>

definition pool_inv :: "pool \<Rightarrow> bool" where
  "pool_inv s \<longleftrightarrow>
     stats_inProgress s + int (length (idle s)) + int (length (starting s)) \<le> int (pool_size s)
     \<and> distinct (idle s @ starting s)
     \<and> (\<forall>w \<in> set (idle s @ starting s). holding s w = 0 \<and> w < spawned s)
     \<and> (\<forall>w. holding s w \<le> 1)
     \<and> (\<forall>w. spawned s \<le> w \<longrightarrow> holding s w = 0 \<and> \<not> alive s w)
     \<and> (\<forall>w. alive s w \<longrightarrow> w \<in> set (workers s))
     \<and> (\<forall>w \<in> set (workers s). w < spawned s)
     \<and> distinct (resolved s) \<and> (\<forall>p \<in> set (resolved s). p < promises s)
     \<and> (\<forall>p. resolveAllDone s = Some p \<longrightarrow> p < promises s \<and> p \<notin> set (resolved s))"

subsection \<open>Orderly runs and completion\<close>

text \<open>
  In an orderly run a fault strikes a Worker that is running a job, and only a live
  Worker's messages are handled.
\<close>

fun fits :: "pool \<Rightarrow> event \<Rightarrow> bool" where
  "fits s (Fault w) = (alive s w \<and> holding s w > 0)"
| "fits s (Message w msg) = (alive s w \<and> enabled s (Message w msg))"
| "fits s e = enabled s e"

fun orderly :: "event list \<Rightarrow> pool \<Rightarrow> bool" where
  "orderly [] s = True"
| "orderly (e # es) s = (fits s e \<and> orderly es (handle e s))"

text \<open>The number of live Workers that hold a job.\<close>

definition inFlight :: "pool \<Rightarrow> nat" where
  "inFlight s = length (filter (\<lambda>w. alive s w \<and> holding s w > 0) [0..<spawned s])"

definition busy :: "pool \<Rightarrow> worker set" where
  "busy s = {w. alive s w \<and> holding s w > 0}"

definition pool_acc :: "pool \<Rightarrow> bool" where
  "pool_acc s \<longleftrightarrow>
     stats_inProgress s = int (card (busy s)) \<and> (\<forall>w \<in> set (idle s @ starting s). alive s w)"

text \<open>
  \<^verbatim>\<open>_checkDone\<close> is called at the end of the handling of a \<^verbatim>\<open>result\<close> message and of the
  ready callback of a replacement, and nowhere else. A list of events completes from a
  pool when one of these calls finds the queue empty and \<^verbatim>\<open>stats.inProgress\<close> zero.
\<close>

fun checks :: "event \<Rightarrow> bool" where
  "checks (Ready w) = True"
| "checks (Message w (ResultMsg res)) = True"
| "checks e = False"

fun completed :: "event list \<Rightarrow> pool \<Rightarrow> bool" where
  "completed [] s = False"
| "completed (e # es) s =
     ((checks e \<and> stats_inProgress (handle e s) = 0 \<and> queue (handle e s) = [])
      \<or> completed es (handle e s))"

section \<open>Concurrency Limiter\<close>

subsection \<open>The configured concurrency\<close>

text \<open>
  worker-manager.js and automate.js, \<^verbatim>\<open>parseCliArgs\<close>:
  \<^verbatim>\<open>concurrency: values.concurrency ? parseInt(values.concurrency, 10) : 3\<close>. The option is a
  string when it is given; the empty string is falsy. \<^verbatim>\<open>parseInt\<close> is a parameter. The
  value reaches the Job as \<^verbatim>\<open>workerData.concurrency\<close> (worker.js) or as the argument
  \<^verbatim>\<open>concurrency\<close> (automate.js).
\<close>

definition concurrencyArg :: "(jsstring \<Rightarrow> number) \<Rightarrow> jsstring option \<Rightarrow> number" where
  "concurrencyArg parseInt v =
     (case v of None \<Rightarrow> Num 3 | Some str \<Rightarrow> if str \<noteq> [] then parseInt str else Num 3)"

subsection \<open>The limiter\<close>

text \<open>
  A Fragment Fetch Task is named by its pass and its index. The limiter holds its
  concurrency, the tasks passed to \<^verbatim>\<open>limit\<close> that have not been started, in the order of the
  calls, and the tasks that have been started and have not settled.
\<close>

type_synonym task = "nat \<times> int"

record limiter =
  cap :: nat
  queued :: "task list"
  active :: "task list"

text \<open>
  Modelled from the spec: section 4.3, ``Caps simultaneous Fragment Fetch Tasks per Job at
  K''. The limiter is the package p-limit, which is not part of the repository;
  \<^verbatim>\<open>pLimit(concurrency)\<close> returns a limiter with nothing queued and nothing started, and
  throws a TypeError when the concurrency is not a number from 1 upwards.
\<close>

definition newLimiter :: "number \<Rightarrow> limiter option" where
  "newLimiter c =
     (case c of
        NaN \<Rightarrow> None
      | Num k \<Rightarrow> if 1 \<le> k then Some \<lparr>cap = nat k, queued = [], active = []\<rparr> else None)"

text \<open>
  Modelled from the spec: section 4.3. The limiter starts the queued tasks in order, one
  after the other, while fewer than K tasks are started and not settled.
\<close>

function admit :: "limiter \<Rightarrow> limiter" where
  "admit l =
     (if length (active l) < cap l \<and> queued l \<noteq> []
      then admit (l\<lparr>active := active l @ [hd (queued l)], queued := tl (queued l)\<rparr>)
      else l)"
  by pat_completeness auto
termination
  by (relation "measure (\<lambda>l. length (queued l))") auto

text \<open>
  Modelled from the spec: section 4.3. \<^verbatim>\<open>limit(fn)\<close> queues the task, which is started as
  soon as fewer than K tasks are running.
\<close>

definition submit :: "task \<Rightarrow> limiter \<Rightarrow> limiter" where
  "submit t l = admit (l\<lparr>queued := queued l @ [t]\<rparr>)"

text \<open>
  Modelled from the spec: section 4.3. When a started task settles it leaves the limiter,
  and the next queued task is started.
\<close>

definition release :: "task \<Rightarrow> limiter \<Rightarrow> limiter" where
  "release t l = admit (l\<lparr>active := remove1 t (active l)\<rparr>)"

subsection \<open>The fetching phase as events\<close>

text \<open>
  The fetching phase of \<^verbatim>\<open>downloadNovel\<close> (worker.js and automate.js) with its suspension
  points: the one limiter \<^verbatim>\<open>limit\<close> made by \<^verbatim>\<open>pLimit(concurrency)\<close>, the array with the log
  of fetches, the pass whose tasks were passed to \<^verbatim>\<open>limit\<close> last (0 for the initial pass),
  and whether the retry loop has been left.
\<close>

record fetching =
  limit :: limiter
  array :: job
  passNo :: nat
  finished :: bool

text \<open>
  The effect of a task on the array when it settles: the \<^verbatim>\<open>try\<close> block of an initial task on
  \<^verbatim>\<open>(ch, i)\<close>, or of a retry task on \<^verbatim>\<open>i\<close>. A started task waits for its delay and for
  \<^verbatim>\<open>fetchChapterContent\<close>; it writes \<^verbatim>\<open>chapters[i]\<close> and settles in one step.
\<close>

definition taskEffect :: "fetcher \<Rightarrow> novel \<Rightarrow> task \<Rightarrow> job \<Rightarrow> job" where
  "taskEffect fch nov t st =
     (if fst t = 0 then runTask fch 0 st (nat (snd t), novel_chapters nov ! nat (snd t))
      else retryTask fch nov (fst t) st (snd t))"

text \<open>
  What follows \<^verbatim>\<open>await Promise.all(tasks)\<close> and \<^verbatim>\<open>await Promise.all(retryTasks)\<close>, once every
  task passed to \<^verbatim>\<open>limit\<close> has settled:
  \<^verbatim>\<open>
  for (let pass = 1; pass <= 2; pass++) {
    const failedIndices = ...;
    if (failedIndices.length === 0) break;
    await delay(delayMs * 2);
    const retryTasks = failedIndices.map(i => limit(async () => { ... }));
    await Promise.all(retryTasks);
  }
  \<close>
\<close>

definition nextPass :: "fetching \<Rightarrow> fetching" where
  "nextPass s =
     (if active (limit s) = [] \<and> queued (limit s) = [] \<and> \<not> finished s then
        (if passNo s + 1 \<le> 2 then
           (let failed = failedIndices (chapters (array s)) in
            if length failed = 0 then s\<lparr>finished := True\<rparr>
            else s\<lparr>passNo := passNo s + 1,
                   limit := foldl (\<lambda>l i. submit (passNo s + 1, i) l) (limit s) failed\<rparr>)
         else s\<lparr>finished := True\<rparr>)
      else s)"

text \<open>
  \<^verbatim>\<open>
  const chapters = new Array(novel.chapters.length);
  const limit = pLimit(concurrency);
  const tasks = novel.chapters.map((ch, i) => limit(async () => { ... }));
  await Promise.all(tasks);
  \<close>
  \<open>None\<close> when \<^verbatim>\<open>pLimit\<close> throws.
\<close>

definition startFetching :: "number \<Rightarrow> novel \<Rightarrow> fetching option" where
  "startFetching c nov =
     (case newLimiter c of
        None \<Rightarrow> None
      | Some l \<Rightarrow>
          Some (nextPass
            \<lparr>limit = foldl (\<lambda>l i. submit (0, int i) l) l [0..<length (novel_chapters nov)],
             array = \<lparr>chapters = replicate (length (novel_chapters nov)) Hole, calls = []\<rparr>,
             passNo = 0, finished = False\<rparr>))"

text \<open>
  A started task settles: it writes the array and leaves the limiter, which starts the
  next queued task; if it was the last task of its pass, the retry loop goes on. A run
  settles a list of tasks in order; it is \<open>None\<close> when a task settles that is not started.
\<close>

definition settle :: "fetcher \<Rightarrow> novel \<Rightarrow> task \<Rightarrow> fetching \<Rightarrow> fetching option" where
  "settle fch nov t s =
     (if t \<in> set (active (limit s))
      then Some (nextPass (s\<lparr>array := taskEffect fch nov t (array s), limit := release t (limit s)\<rparr>))
      else None)"

fun settles :: "fetcher \<Rightarrow> novel \<Rightarrow> task list \<Rightarrow> fetching \<Rightarrow> fetching option" where
  "settles fch nov [] s = Some s"
| "settles fch nov (t # ts) s =
     (case settle fch nov t s of None \<Rightarrow> None | Some s' \<Rightarrow> settles fch nov ts s')"

subsection \<open>The invariant\<close>

text \<open>
  The limiter is sound when no more tasks are started than its concurrency allows and,
  while a task is queued, as many as it allows. In the fetching phase the limiter keeps
  its concurrency and is sound, and its tasks belong to the pass in progress.
\<close>

definition sound :: "limiter \<Rightarrow> bool" where
  "sound l \<longleftrightarrow> length (active l) \<le> cap l \<and> (queued l \<noteq> [] \<longrightarrow> length (active l) = cap l)"

definition fetching_inv :: "nat \<Rightarrow> fetching \<Rightarrow> bool" where
  "fetching_inv K s \<longleftrightarrow>
     cap (limit s) = K \<and> sound (limit s) \<and> passNo s \<le> 2
     \<and> (\<forall>t \<in> set (active (limit s) @ queued (limit s)). fst t = passNo s)"

section \<open>Properties of the Job\<close>

subsection \<open>The passes as list functions\<close>

lemma fetchTask_not_Hole: "fetchTask f p i ch \<noteq> Hole"
  by (simp add: fetchTask_def split: option.splits)

lemma foldl_runTask:
  "length pre = k \<Longrightarrow>
   foldl (runTask f p) \<lparr>chapters = pre @ replicate (length xs) Hole, calls = cs\<rparr> (enumerate k xs)
   = \<lparr>chapters = pre @ map (\<lambda>(i, ch). fetchTask f p i ch) (enumerate k xs),
      calls = cs @ map (\<lambda>i. (p, i)) [k..<k + length xs]\<rparr>"
proof (induction xs arbitrary: pre k cs)
  case Nil
  then show ?case by simp
next
  case (Cons x xs)
  have "foldl (runTask f p) \<lparr>chapters = pre @ replicate (length (x # xs)) Hole, calls = cs\<rparr>
          (enumerate k (x # xs))
        = foldl (runTask f p)
            \<lparr>chapters = (pre @ [fetchTask f p k x]) @ replicate (length xs) Hole,
             calls = cs @ [(p, k)]\<rparr> (enumerate (Suc k) xs)"
    using Cons.prems by (simp add: runTask_def list_update_append del: upt_Suc)
  also have "\<dots> = \<lparr>chapters = (pre @ [fetchTask f p k x]) @
                        map (\<lambda>(i, ch). fetchTask f p i ch) (enumerate (Suc k) xs),
                     calls = (cs @ [(p, k)]) @ map (\<lambda>i. (p, i)) [Suc k..<Suc k + length xs]\<rparr>"
    using Cons.prems by (intro Cons.IH) simp
  finally show ?case by (simp add: upt_conv_Cons del: upt_Suc)
qed

lemma initialPass_eq:
  "initialPass f nov =
     \<lparr>chapters = map (\<lambda>(i, ch). fetchTask f 0 i ch) (enumerate 0 (novel_chapters nov)),
      calls = map (\<lambda>i. (0, i)) [0..<length (novel_chapters nov)]\<rparr>"
  unfolding initialPass_def using foldl_runTask [of "[]" 0 f 0 "novel_chapters nov" "[]"] by simp

lemma failedIndices_gen:
  "filter (\<lambda>i. i \<noteq> - 1)
     (concat (map (\<lambda>(i, ch). case ch of Hole \<Rightarrow> [] | Null \<Rightarrow> [int i] | Filled c \<Rightarrow> [- 1])
        (enumerate k chs)))
   = map (\<lambda>j. int (k + j)) (filter (\<lambda>j. chs ! j = Null) [0..<length chs])"
proof (induction chs arbitrary: k)
  case Nil
  show ?case by simp
next
  case (Cons c chs)
  have s: "[0..<length (c # chs)] = 0 # map Suc [0..<length chs]"
    by (simp add: upt_conv_Cons map_Suc_upt del: upt_Suc)
  show ?case
    unfolding s using Cons.IH [of "Suc k"]
    by (cases c) (simp_all add: filter_map comp_def)
qed

lemma failedIndices_eq:
  "failedIndices chs = map int (filter (\<lambda>j. chs ! j = Null) [0..<length chs])"
  unfolding failedIndices_def using failedIndices_gen [of 0 chs] by simp

lemma retryPass_eq:
  "\<forall>i \<in> set failed. 0 \<le> i \<and> nat i < length (novel_chapters nov) \<Longrightarrow>
   retryPass f nov p failed st =
     \<lparr>chapters = map (\<lambda>j. if int j \<in> set failed then fetchTask f p j (novel_chapters nov ! j)
                           else chapters st ! j) [0..<length (chapters st)],
      calls = calls st @ map (\<lambda>i. (p, nat i)) failed\<rparr>"
proof (induction failed arbitrary: st)
  case Nil
  show ?case by (simp add: retryPass_def map_nth)
next
  case (Cons i failed)
  let ?v = "fetchTask f p (nat i) (novel_chapters nov ! nat i)"
  let ?st = "\<lparr>chapters = (chapters st)[nat i := ?v], calls = calls st @ [(p, nat i)]\<rparr>"
  from Cons.prems have i: "0 \<le> i" "nat i < length (novel_chapters nov)" by auto
  have step: "retryTask f nov p st i = ?st"
    using i by (simp add: retryTask_def runTask_def)
  have "retryPass f nov p (i # failed) st = retryPass f nov p failed ?st"
    by (simp add: retryPass_def step)
  also have "\<dots> = \<lparr>chapters = map (\<lambda>j. if int j \<in> set failed
                                          then fetchTask f p j (novel_chapters nov ! j)
                                          else chapters ?st ! j) [0..<length (chapters ?st)],
                     calls = calls ?st @ map (\<lambda>i. (p, nat i)) failed\<rparr>"
    using Cons.prems by (intro Cons.IH) simp
  also have "\<dots> = \<lparr>chapters = map (\<lambda>j. if int j \<in> set (i # failed)
                                          then fetchTask f p j (novel_chapters nov ! j)
                                          else chapters st ! j) [0..<length (chapters st)],
                     calls = calls st @ map (\<lambda>i. (p, nat i)) (i # failed)\<rparr>"
    using i by (auto simp: nth_list_update)
  finally show ?case .
qed

lemma failedIndices_range:
  "i \<in> set (failedIndices chs) \<Longrightarrow> 0 \<le> i \<and> nat i < length chs"
  by (auto simp: failedIndices_eq)

lemma retryPass_failed:
  assumes "length (chapters st) = length (novel_chapters nov)"
  shows "retryPass f nov p (failedIndices (chapters st)) st =
     \<lparr>chapters = map (\<lambda>j. if chapters st ! j = Null then fetchTask f p j (novel_chapters nov ! j)
                           else chapters st ! j) [0..<length (chapters st)],
      calls = calls st @ map (\<lambda>j. (p, j)) (filter (\<lambda>j. chapters st ! j = Null) [0..<length (chapters st)])\<rparr>"
proof -
  have "\<forall>i \<in> set (failedIndices (chapters st)). 0 \<le> i \<and> nat i < length (novel_chapters nov)"
    using failedIndices_range assms by metis
  then show ?thesis
    by (simp add: retryPass_eq) (auto simp: failedIndices_eq comp_def)
qed

lemma length_retryPass:
  "length (chapters st) = length (novel_chapters nov) \<Longrightarrow>
   length (chapters (retryPass f nov p (failedIndices (chapters st)) st)) = length (chapters st)"
  by (simp add: retryPass_failed)

lemma retryPass_no_Hole:
  assumes "length (chapters st) = length (novel_chapters nov)" and "Hole \<notin> set (chapters st)"
  shows "Hole \<notin> set (chapters (retryPass f nov p (failedIndices (chapters st)) st))"
  using assms fetchTask_not_Hole [of f p, symmetric]
  by (auto simp: retryPass_failed in_set_conv_nth)

declare retryLoop.simps [simp del]

lemma retryLoop_unrolled:
  "retryLoop f nov 1 st =
     (let f1 = failedIndices (chapters st);
          st1 = retryPass f nov 1 f1 st;
          f2 = failedIndices (chapters st1);
          st2 = retryPass f nov 2 f2 st1
      in if f1 = [] then st else if f2 = [] then st1 else st2)"
proof -
  have 3: "retryLoop f nov 3 s = s" for s
    by (subst retryLoop.simps) simp
  have 2: "retryLoop f nov 2 s =
      (if failedIndices (chapters s) = [] then s
       else retryPass f nov 2 (failedIndices (chapters s)) s)" for s
    by (subst retryLoop.simps) (simp add: 3 Let_def)
  have "retryLoop f nov 1 st =
      (if failedIndices (chapters st) = [] then st
       else retryLoop f nov 2 (retryPass f nov 1 (failedIndices (chapters st)) st))"
    by (subst retryLoop.simps) (simp only: one_add_one Let_def, simp)
  then show ?thesis
    by (simp only: 2 Let_def)
qed

lemma retryLoop_keeps:
  assumes "length (chapters st) = length (novel_chapters nov)" and "Hole \<notin> set (chapters st)"
  shows "length (chapters (retryLoop f nov 1 st)) = length (novel_chapters nov)
         \<and> Hole \<notin> set (chapters (retryLoop f nov 1 st))"
proof -
  let ?st1 = "retryPass f nov 1 (failedIndices (chapters st)) st"
  have l1: "length (chapters ?st1) = length (novel_chapters nov)"
    using assms by (simp add: length_retryPass)
  have h1: "Hole \<notin> set (chapters ?st1)"
    using assms by (rule retryPass_no_Hole)
  let ?st2 = "retryPass f nov 2 (failedIndices (chapters ?st1)) ?st1"
  have l2: "length (chapters ?st2) = length (novel_chapters nov)"
    using l1 by (simp add: length_retryPass)
  have h2: "Hole \<notin> set (chapters ?st2)"
    using l1 h1 by (rule retryPass_no_Hole)
  show ?thesis
    unfolding retryLoop_unrolled Let_def using assms l1 h1 l2 h2 by simp
qed

lemma initialPass_keeps:
  "length (chapters (initialPass f nov)) = length (novel_chapters nov)
   \<and> Hole \<notin> set (chapters (initialPass f nov))"
  using fetchTask_not_Hole [of f 0, symmetric] by (auto simp: initialPass_eq)

declare fillFrom.simps [simp del]

lemma fillFrom_eq:
  "length chs = length (novel_chapters nov) \<Longrightarrow>
   fillFrom nov i chs c =
     Inr (map (\<lambda>j. if i \<le> j \<and> chs ! j = Null then Filled (placeholder nov j) else chs ! j)
            [0..<length chs],
          c + length (filter (\<lambda>j. chs ! j = Null) [i..<length chs]))"
proof (induction nov i chs c rule: fillFrom.induct)
  case (1 nov i chs c)
  show ?case
  proof (cases "i < length chs")
    case False
    then show ?thesis
      by (subst fillFrom.simps) (auto intro: nth_equalityI)
  next
    case True
    have u: "[i..<length chs] = i # [i + 1..<length chs]"
      using True by (simp add: upt_conv_Cons)
    show ?thesis
    proof (cases "chs ! i = Null")
      case n: True
      let ?chs = "chs[i := Filled (placeholder nov i)]"
      have "fillFrom nov i chs c = fillFrom nov (i + 1) ?chs (c + 1)"
        using True n "1.prems" by (subst fillFrom.simps) simp
      also have "\<dots> = Inr (map (\<lambda>j. if i + 1 \<le> j \<and> ?chs ! j = Null
                                      then Filled (placeholder nov j) else ?chs ! j) [0..<length ?chs],
                             c + 1 + length (filter (\<lambda>j. ?chs ! j = Null) [i + 1..<length ?chs]))"
        using True n "1.prems" by (intro "1.IH"(1)) simp_all
      also have "\<dots> = Inr (map (\<lambda>j. if i \<le> j \<and> chs ! j = Null
                                      then Filled (placeholder nov j) else chs ! j) [0..<length chs],
                             c + length (filter (\<lambda>j. chs ! j = Null) [i..<length chs]))"
        unfolding u using True n
        by (auto simp: nth_list_update intro!: arg_cong [where f = length] filter_cong)
      finally show ?thesis .
    next
      case n: False
      have "fillFrom nov i chs c = fillFrom nov (i + 1) chs c"
        using True n by (subst fillFrom.simps) simp
      also have "\<dots> = Inr (map (\<lambda>j. if i + 1 \<le> j \<and> chs ! j = Null
                                      then Filled (placeholder nov j) else chs ! j) [0..<length chs],
                             c + length (filter (\<lambda>j. chs ! j = Null) [i + 1..<length chs]))"
        using True n "1.prems" by (intro "1.IH"(2)) simp_all
      also have "\<dots> = Inr (map (\<lambda>j. if i \<le> j \<and> chs ! j = Null
                                      then Filled (placeholder nov j) else chs ! j) [0..<length chs],
                             c + length (filter (\<lambda>j. chs ! j = Null) [i..<length chs]))"
        unfolding u using True n by (auto simp: le_eq_less_or_eq)
      finally show ?thesis .
    qed
  qed
qed

lemma fetchChapters_eq:
  "fetchChapters f nov =
     (let st = retryLoop f nov 1 (initialPass f nov)
      in (Inr (map (\<lambda>i. if chapters st ! i = Null then Filled (placeholder nov i) else chapters st ! i)
                 [0..<length (novel_chapters nov)],
               length (filter (\<lambda>i. chapters st ! i = Null) [0..<length (novel_chapters nov)])),
          calls st))"
proof -
  let ?st = "retryLoop f nov 1 (initialPass f nov)"
  have l: "length (chapters ?st) = length (novel_chapters nov)"
    using retryLoop_keeps [of "initialPass f nov" nov f] initialPass_keeps [of f nov] by simp
  show ?thesis
    unfolding fetchChapters_def Let_def using fillFrom_eq [OF l, of 0 0] l by simp
qed

lemma fetchChapters_complete:
  "\<exists>arr k cs. fetchChapters f nov = (Inr (arr, k), cs)
      \<and> length arr = length (novel_chapters nov)
      \<and> Null \<notin> set arr \<and> Hole \<notin> set arr"
proof -
  let ?st = "retryLoop f nov 1 (initialPass f nov)"
  have k: "length (chapters ?st) = length (novel_chapters nov) \<and> Hole \<notin> set (chapters ?st)"
    using retryLoop_keeps [of "initialPass f nov" nov f] initialPass_keeps [of f nov] by simp
  let ?arr = "map (\<lambda>i. if chapters ?st ! i = Null then Filled (placeholder nov i) else chapters ?st ! i)
                 [0..<length (novel_chapters nov)]"
  have "Null \<notin> set ?arr" by auto
  moreover have "Hole \<notin> set ?arr" using k by (auto simp: in_set_conv_nth)
  ultimately show ?thesis
    unfolding fetchChapters_eq Let_def by (intro exI conjI) (rule refl, simp_all)
qed

lemma all_fail_initial:
  "\<forall>p i ch. fetchTask f p i ch = Null \<Longrightarrow>
   chapters (initialPass f nov) = replicate (length (novel_chapters nov)) Null"
  by (auto simp: initialPass_eq intro!: nth_equalityI)

lemma all_fail_retryPass:
  assumes "\<forall>p i ch. fetchTask f p i ch = Null"
    and "chapters st = replicate (length (novel_chapters nov)) Null"
  shows "chapters (retryPass f nov p (failedIndices (chapters st)) st)
         = replicate (length (novel_chapters nov)) Null"
proof -
  have l: "length (chapters st) = length (novel_chapters nov)" using assms(2) by simp
  have "chapters (retryPass f nov p (failedIndices (chapters st)) st) =
      map (\<lambda>j. if chapters st ! j = Null then fetchTask f p j (novel_chapters nov ! j)
                else chapters st ! j) [0..<length (chapters st)]"
    by (simp add: retryPass_failed [OF l])
  also have "\<dots> = replicate (length (novel_chapters nov)) Null"
    using assms by (auto intro!: nth_equalityI)
  finally show ?thesis .
qed

lemma all_fail_retryLoop:
  assumes "\<forall>p i ch. fetchTask f p i ch = Null"
  shows "chapters (retryLoop f nov 1 (initialPass f nov)) = replicate (length (novel_chapters nov)) Null"
proof -
  let ?st = "initialPass f nov"
  let ?st1 = "retryPass f nov 1 (failedIndices (chapters ?st)) ?st"
  let ?st2 = "retryPass f nov 2 (failedIndices (chapters ?st1)) ?st1"
  have 0: "chapters ?st = replicate (length (novel_chapters nov)) Null"
    using assms by (rule all_fail_initial)
  have 1: "chapters ?st1 = replicate (length (novel_chapters nov)) Null"
    using assms 0 by (rule all_fail_retryPass)
  have 2: "chapters ?st2 = replicate (length (novel_chapters nov)) Null"
    using assms 1 by (rule all_fail_retryPass)
  show ?thesis
    unfolding retryLoop_unrolled Let_def using 0 1 2 by simp
qed

lemma all_fail_fetchChapters:
  assumes "\<forall>p i ch. fetchTask f p i ch = Null"
  shows "fst (fetchChapters f nov) =
           Inr (map (\<lambda>i. Filled (placeholder nov i)) [0..<length (novel_chapters nov)],
                length (novel_chapters nov))"
  unfolding fetchChapters_eq Let_def all_fail_retryLoop [OF assms] by simp

lemma downloadNovel_run:
  assumes "fetchNovelDetail e = Inr nov" "novel_title nov \<noteq> []" "novel_chapters nov \<noteq> []"
    "\<not> (truthy (maxChapters cfg) \<and> greater (length (novel_chapters nov)) (maxChapters cfg))"
    "pLimit e" "fetchChapters (fetchChapterContent e) nov = (Inr (arr, k), cs)"
  shows "assembled (downloadNovel cfg e) = Some arr \<and> fetches (downloadNovel cfg e) = cs
    \<and> (buildEpub e arr = None \<longrightarrow>
         outcome (downloadNovel cfg e) =
           Inr \<lparr>success = True, skipped = False, error = None, title = Some (novel_title nov),
                 totalChapters = Some (length (novel_chapters nov)), failedChapters = Some k\<rparr>)"
  using assms by (simp add: downloadNovel_def split: option.splits)

lemma downloadNovelAutomate_run:
  assumes "fetchNovelDetail e = Inr nov" "novel_title nov \<noteq> []" "novel_chapters nov \<noteq> []"
    "\<not> (truthy maxCh \<and> greater (length (novel_chapters nov)) maxCh)"
    "pLimit e" "fetchChapters (fetchChapterContent e) nov = (Inr (arr, k), cs)"
  shows "assembled (downloadNovelAutomate maxCh e) = Some arr
    \<and> fetches (downloadNovelAutomate maxCh e) = cs
    \<and> (buildEpub e arr = None \<longrightarrow> outcome (downloadNovelAutomate maxCh e) = Inr True)"
  using assms by (simp add: downloadNovelAutomate_def split: option.splits)

subsection \<open>The sample Job, evaluated\<close>

lemma demo_initial:
  "initialPass demoFetch demoNovel =
     \<lparr>chapters = [Filled \<lparr>ch_title = js ''one'', ch_content = js ''<p>a</p>''\<rparr>, Null, Null],
      calls = [(0, 0), (0, 1), (0, 2)]\<rparr>"
  by (simp add: initialPass_def demoNovel_def demoFetch_def runTask_def fetchTask_def js_def
      trim_def isWhiteSpace_def enumerate_eq_zip upt_conv_Cons)

lemma demo_failed0: "failedIndices [Filled c, Null, Null] = [1, 2]"
  by (simp add: failedIndices_def enumerate_eq_zip upt_conv_Cons)

lemma demo_pass1:
  "retryPass demoFetch demoNovel 1 [1, 2]
     \<lparr>chapters = [Filled \<lparr>ch_title = js ''one'', ch_content = js ''<p>a</p>''\<rparr>, Null, Null],
      calls = [(0, 0), (0, 1), (0, 2)]\<rparr> =
     \<lparr>chapters = [Filled \<lparr>ch_title = js ''one'', ch_content = js ''<p>a</p>''\<rparr>, Null,
                  Filled \<lparr>ch_title = js ''t'', ch_content = js ''<p>c</p>''\<rparr>],
      calls = [(0, 0), (0, 1), (0, 2), (1, 1), (1, 2)]\<rparr>"
  by (simp add: retryPass_def retryTask_def demoNovel_def demoFetch_def runTask_def fetchTask_def
      js_def trim_def isWhiteSpace_def)

lemma demo_failed1: "failedIndices [Filled c, Null, Filled d] = [1]"
  by (simp add: failedIndices_def enumerate_eq_zip upt_conv_Cons)

lemma demo_pass2:
  "retryPass demoFetch demoNovel 2 [1]
     \<lparr>chapters = [Filled \<lparr>ch_title = js ''one'', ch_content = js ''<p>a</p>''\<rparr>, Null,
                  Filled \<lparr>ch_title = js ''t'', ch_content = js ''<p>c</p>''\<rparr>],
      calls = [(0, 0), (0, 1), (0, 2), (1, 1), (1, 2)]\<rparr> =
     \<lparr>chapters = [Filled \<lparr>ch_title = js ''one'', ch_content = js ''<p>a</p>''\<rparr>, Null,
                  Filled \<lparr>ch_title = js ''t'', ch_content = js ''<p>c</p>''\<rparr>],
      calls = [(0, 0), (0, 1), (0, 2), (1, 1), (1, 2), (2, 1)]\<rparr>"
  by (simp add: retryPass_def retryTask_def demoNovel_def demoFetch_def runTask_def fetchTask_def
      js_def trim_def isWhiteSpace_def)

lemma demo_retryLoop:
  "retryLoop demoFetch demoNovel 1 (initialPass demoFetch demoNovel) =
     \<lparr>chapters = [Filled \<lparr>ch_title = js ''one'', ch_content = js ''<p>a</p>''\<rparr>, Null,
                  Filled \<lparr>ch_title = js ''t'', ch_content = js ''<p>c</p>''\<rparr>],
      calls = [(0, 0), (0, 1), (0, 2), (1, 1), (1, 2), (2, 1)]\<rparr>"
  by (simp only: retryLoop_unrolled Let_def demo_initial job.simps
      demo_failed0 demo_pass1 demo_failed1 demo_pass2) simp

lemma demo_fetchChapters:
  "fetchChapters demoFetch demoNovel =
     (Inr ([Filled \<lparr>ch_title = js ''one'', ch_content = js ''<p>a</p>''\<rparr>,
            Filled \<lparr>ch_title = js ''Chapter 2'', ch_content = js ''<p>[Failed to fetch after retries]</p>''\<rparr>,
            Filled \<lparr>ch_title = js ''t'', ch_content = js ''<p>c</p>''\<rparr>], 1),
      [(0, 0), (0, 1), (0, 2), (1, 1), (1, 2), (2, 1)])"
  unfolding fetchChapters_eq Let_def demo_retryLoop
  by (simp add: demoNovel_def placeholder_def upt_conv_Cons js_def)

subsection \<open>Complete arrays\<close>

text \<open>
  C1. For every Job that reaches the fragment-fetching phase (the manifest checks pass and
  the limiter exists), the array handed to the assembler after the initial pass, the retry
  passes and the placeholder loop has as many elements as the manifest has chapters and
  holds neither \<open>null\<close> nor a hole. When every task of every pass fails, the Job still
  gets there, with a placeholder at every index. This holds for worker.js and automate.js.
\<close>

theorem downloadNovel_complete_array:
  assumes "fetchNovelDetail e = Inr nov" and "pLimit e"
    and "novel_title nov \<noteq> []" and "novel_chapters nov \<noteq> []"
    and "\<not> (truthy (maxChapters cfg) \<and> greater (length (novel_chapters nov)) (maxChapters cfg))"
  shows "\<exists>arr. assembled (downloadNovel cfg e) = Some arr
           \<and> assembled (downloadNovelAutomate (maxChapters cfg) e) = Some arr
           \<and> length arr = length (novel_chapters nov)
           \<and> Null \<notin> set arr \<and> Hole \<notin> set arr
           \<and> ((\<forall>p i ch. fetchTask (fetchChapterContent e) p i ch = Null) \<longrightarrow>
                arr = map (\<lambda>i. Filled (placeholder nov i)) [0..<length (novel_chapters nov)])"
proof -
  obtain arr k cs where f: "fetchChapters (fetchChapterContent e) nov = (Inr (arr, k), cs)"
    and a: "length arr = length (novel_chapters nov)" "Null \<notin> set arr" "Hole \<notin> set arr"
    using fetchChapters_complete by blast
  have w: "assembled (downloadNovel cfg e) = Some arr"
    using downloadNovel_run [of e nov cfg arr k cs] assms f by simp
  have m: "assembled (downloadNovelAutomate (maxChapters cfg) e) = Some arr"
    using downloadNovelAutomate_run [of e nov "maxChapters cfg" arr k cs] assms f by simp
  have "arr = map (\<lambda>i. Filled (placeholder nov i)) [0..<length (novel_chapters nov)]"
    if "\<forall>p i ch. fetchTask (fetchChapterContent e) p i ch = Null"
    using all_fail_fetchChapters [OF that, of nov] f by simp
  with w m a show ?thesis by blast
qed

theorem downloadNovel_complete_array_witness:
  "fetchNovelDetail demoEnv = Inr demoNovel \<and> pLimit demoEnv
   \<and> novel_title demoNovel \<noteq> [] \<and> novel_chapters demoNovel \<noteq> []
   \<and> \<not> (truthy (maxChapters (demoData (Num 2000)))
          \<and> greater (length (novel_chapters demoNovel)) (maxChapters (demoData (Num 2000))))
   \<and> (\<exists>arr. assembled (downloadNovel (demoData (Num 2000)) demoEnv) = Some arr
          \<and> length arr = 3 \<and> Null \<notin> set arr \<and> Hole \<notin> set arr)"
proof -
  have h: "fetchNovelDetail demoEnv = Inr demoNovel" "pLimit demoEnv"
    "novel_title demoNovel \<noteq> []" "novel_chapters demoNovel \<noteq> []"
    "\<not> (truthy (maxChapters (demoData (Num 2000)))
          \<and> greater (length (novel_chapters demoNovel)) (maxChapters (demoData (Num 2000))))"
    by (simp_all add: demoEnv_def demoNovel_def demoData_def js_def)
  have "length (novel_chapters demoNovel) = 3" by (simp add: demoNovel_def)
  with downloadNovel_complete_array [OF h] h show ?thesis by auto
qed

subsection \<open>The Retry Controller\<close>

text \<open>
  C2. After the initial pass the Retry Controller runs at most two passes, however many
  chapters are still failed after the second. Pass 1 runs only if some index is \<open>null\<close>
  and re-runs the tasks for exactly the indices that are \<open>null\<close> then; pass 2 runs only if
  some index is \<open>null\<close> after pass 1, for exactly those indices; there is no further pass.
  The array is assumed to have the length of the manifest, as it has after the initial pass.
\<close>

theorem retry_at_most_two_passes:
  assumes "length (chapters st) = length (novel_chapters nov)"
  shows "(let f1 = failedIndices (chapters st);
              st1 = retryPass fch nov 1 f1 st;
              f2 = failedIndices (chapters st1);
              st2 = retryPass fch nov 2 f2 st1
          in retryLoop fch nov 1 st = (if f1 = [] then st else if f2 = [] then st1 else st2)
             \<and> f1 = map int (filter (\<lambda>i. chapters st ! i = Null) [0..<length (chapters st)])
             \<and> f2 = map int (filter (\<lambda>i. chapters st1 ! i = Null) [0..<length (chapters st1)])
             \<and> calls st1 = calls st @ map (\<lambda>i. (1, nat i)) f1
             \<and> calls st2 = calls st1 @ map (\<lambda>i. (2, nat i)) f2)"
proof -
  let ?f1 = "failedIndices (chapters st)"
  let ?st1 = "retryPass fch nov 1 ?f1 st"
  let ?f2 = "failedIndices (chapters ?st1)"
  have r1: "\<forall>i \<in> set ?f1. 0 \<le> i \<and> nat i < length (novel_chapters nov)"
    using failedIndices_range assms by metis
  have "length (chapters ?st1) = length (novel_chapters nov)"
    using assms by (simp add: length_retryPass)
  then have r2: "\<forall>i \<in> set ?f2. 0 \<le> i \<and> nat i < length (novel_chapters nov)"
    using failedIndices_range by metis
  have c1: "calls ?st1 = calls st @ map (\<lambda>i. (1, nat i)) ?f1"
    by (subst retryPass_eq [OF r1]) simp
  have c2: "calls (retryPass fch nov 2 ?f2 ?st1) = calls ?st1 @ map (\<lambda>i. (2, nat i)) ?f2"
    by (subst retryPass_eq [OF r2]) simp
  have u: "retryLoop fch nov 1 st =
      (if ?f1 = [] then st else if ?f2 = [] then ?st1 else retryPass fch nov 2 ?f2 ?st1)"
    by (simp only: retryLoop_unrolled Let_def)
  show ?thesis
    unfolding Let_def using u c1 c2 failedIndices_eq by blast
qed

theorem retry_at_most_two_passes_witness:
  "length (chapters (initialPass demoFetch demoNovel)) = length (novel_chapters demoNovel)
   \<and> failedIndices (chapters (initialPass demoFetch demoNovel)) = [1, 2]
   \<and> failedIndices (chapters (retryPass demoFetch demoNovel 1 [1, 2] (initialPass demoFetch demoNovel))) = [1]
   \<and> calls (retryLoop demoFetch demoNovel 1 (initialPass demoFetch demoNovel))
       = calls (initialPass demoFetch demoNovel) @ [(1, 1), (1, 2), (2, 1)]
   \<and> failedIndices (chapters (retryLoop demoFetch demoNovel 1 (initialPass demoFetch demoNovel))) = [1]"
proof -
  have l: "length (chapters (initialPass demoFetch demoNovel)) = length (novel_chapters demoNovel)"
    by (simp add: initialPass_keeps)
  have f1: "failedIndices (chapters (initialPass demoFetch demoNovel)) = [1, 2]"
    by (simp only: demo_initial job.simps demo_failed0)
  have f2: "failedIndices (chapters (retryPass demoFetch demoNovel 1 [1, 2] (initialPass demoFetch demoNovel))) = [1]"
    by (simp only: demo_initial demo_pass1 job.simps demo_failed1)
  note t = retry_at_most_two_passes [OF l, of demoFetch, unfolded Let_def f1 f2]
  have "calls (retryLoop demoFetch demoNovel 1 (initialPass demoFetch demoNovel))
       = calls (initialPass demoFetch demoNovel) @ [(1, 1), (1, 2), (2, 1)]"
    using t [THEN conjunct1]
      t [THEN conjunct2, THEN conjunct2, THEN conjunct2, THEN conjunct1]
      t [THEN conjunct2, THEN conjunct2, THEN conjunct2, THEN conjunct2]
    by (simp del: One_nat_def)
  moreover have "failedIndices (chapters (retryLoop demoFetch demoNovel 1 (initialPass demoFetch demoNovel))) = [1]"
    by (simp only: demo_retryLoop job.simps demo_failed1)
  ultimately show ?thesis using l f1 f2 by simp
qed

subsection \<open>Placeholders and the result\<close>

lemma demo_run:
  "downloadNovel (demoData (Num 2000)) demoEnv =
     \<lparr>outcome = Inr \<lparr>success = True, skipped = False, error = None, title = Some (js ''T''),
                      totalChapters = Some 3, failedChapters = Some 1\<rparr>,
      fetches = [(0, 0), (0, 1), (0, 2), (1, 1), (1, 2), (2, 1)],
      assembled = Some [Filled \<lparr>ch_title = js ''one'', ch_content = js ''<p>a</p>''\<rparr>,
            Filled \<lparr>ch_title = js ''Chapter 2'', ch_content = js ''<p>[Failed to fetch after retries]</p>''\<rparr>,
            Filled \<lparr>ch_title = js ''t'', ch_content = js ''<p>c</p>''\<rparr>]\<rparr>"
proof -
  have "fetchChapters (fetchChapterContent demoEnv) demoNovel =
     (Inr ([Filled \<lparr>ch_title = js ''one'', ch_content = js ''<p>a</p>''\<rparr>,
            Filled \<lparr>ch_title = js ''Chapter 2'', ch_content = js ''<p>[Failed to fetch after retries]</p>''\<rparr>,
            Filled \<lparr>ch_title = js ''t'', ch_content = js ''<p>c</p>''\<rparr>], 1),
      [(0, 0), (0, 1), (0, 2), (1, 1), (1, 2), (2, 1)])"
    using demo_fetchChapters by (simp add: demoEnv_def)
  then show ?thesis
    by (simp add: downloadNovel_def demoEnv_def demoData_def) (simp add: demoNovel_def js_def)
qed

lemma demo_run_zero:
  "downloadNovel (demoData (Num 0)) demoEnv = downloadNovel (demoData (Num 2000)) demoEnv"
  by (simp add: downloadNovel_def demoEnv_def demoData_def demoNovel_def)

lemma calls_retryLoop:
  assumes "length (chapters st) = length (novel_chapters nov)"
  shows "\<exists>ext. calls (retryLoop fch nov 1 st) = calls st @ ext"
proof -
  let ?f1 = "failedIndices (chapters st)"
  let ?st1 = "retryPass fch nov 1 ?f1 st"
  have l1: "length (chapters ?st1) = length (novel_chapters nov)"
    using assms by (simp add: length_retryPass)
  have c1: "\<exists>ext. calls ?st1 = calls st @ ext"
    by (subst retryPass_failed [OF assms]) simp
  have "\<exists>ext. calls (retryPass fch nov 2 (failedIndices (chapters ?st1)) ?st1) = calls ?st1 @ ext"
    by (subst retryPass_failed [OF l1]) simp
  with c1 have c2: "\<exists>ext. calls (retryPass fch nov 2 (failedIndices (chapters ?st1)) ?st1) = calls st @ ext"
    by auto
  show ?thesis
    by (simp only: retryLoop_unrolled Let_def) (use c1 c2 in auto)
qed

lemma fetchChapters_calls:
  "novel_chapters nov \<noteq> [] \<Longrightarrow> snd (fetchChapters fch nov) \<noteq> []"
proof -
  assume ne: "novel_chapters nov \<noteq> []"
  have "length (chapters (initialPass fch nov)) = length (novel_chapters nov)"
    by (simp add: initialPass_keeps)
  then obtain ext where "calls (retryLoop fch nov 1 (initialPass fch nov)) = calls (initialPass fch nov) @ ext"
    using calls_retryLoop by blast
  moreover have "calls (initialPass fch nov) \<noteq> []"
    using ne by (simp add: initialPass_eq)
  ultimately show ?thesis by (simp add: fetchChapters_def Let_def)
qed

text \<open>
  C3. After the last retry pass every index that is still \<open>null\<close> receives the placeholder
  whose title is the chapter's title from the manifest, or "Chapter \<open>i + 1\<close>" when that is
  empty, and whose content is the fixed failure marker; the other indices keep their
  chapter. The number of placeholders is the \<open>failedChapters\<close> of the result, and when the
  assembler succeeds the result is a success whatever that number is.
\<close>

theorem placeholders_reported:
  assumes "fetchNovelDetail e = Inr nov" and "pLimit e"
    and "novel_title nov \<noteq> []" and "novel_chapters nov \<noteq> []"
    and "\<not> (truthy (maxChapters cfg) \<and> greater (length (novel_chapters nov)) (maxChapters cfg))"
  shows "(let st = retryLoop (fetchChapterContent e) nov 1 (initialPass (fetchChapterContent e) nov);
              arr = map (\<lambda>i. if chapters st ! i = Null
                      then Filled \<lparr>ch_title = (if ref_title (novel_chapters nov ! i) \<noteq> []
                                                then ref_title (novel_chapters nov ! i)
                                                else js ''Chapter '' @ decimal (i + 1)),
                                    ch_content = js ''<p>[Failed to fetch after retries]</p>''\<rparr>
                      else chapters st ! i) [0..<length (novel_chapters nov)];
              failedCount = length (filter (\<lambda>i. chapters st ! i = Null) [0..<length (novel_chapters nov)])
          in assembled (downloadNovel cfg e) = Some arr
             \<and> (buildEpub e arr = None \<longrightarrow>
                   outcome (downloadNovel cfg e) =
                     Inr \<lparr>success = True, skipped = False, error = None,
                           title = Some (novel_title nov),
                           totalChapters = Some (length (novel_chapters nov)),
                           failedChapters = Some failedCount\<rparr>
                   \<and> success (resultMessage (downloadNovel cfg e))))"
proof -
  let ?st = "retryLoop (fetchChapterContent e) nov 1 (initialPass (fetchChapterContent e) nov)"
  let ?arr = "map (\<lambda>i. if chapters ?st ! i = Null then Filled (placeholder nov i) else chapters ?st ! i)
                [0..<length (novel_chapters nov)]"
  let ?k = "length (filter (\<lambda>i. chapters ?st ! i = Null) [0..<length (novel_chapters nov)])"
  have f: "fetchChapters (fetchChapterContent e) nov = (Inr (?arr, ?k), calls ?st)"
    by (simp only: fetchChapters_eq Let_def)
  note r = downloadNovel_run [OF assms(1,3,4,5,2) f]
  from r have o: "buildEpub e ?arr = None \<longrightarrow> success (resultMessage (downloadNovel cfg e))"
    by (simp add: resultMessage_def)
  show ?thesis
    apply (simp only: Let_def placeholder_def [symmetric])
    using r o by blast
qed

theorem placeholders_reported_witness:
  "fetchNovelDetail demoEnv = Inr demoNovel \<and> pLimit demoEnv
   \<and> novel_title demoNovel \<noteq> [] \<and> novel_chapters demoNovel \<noteq> []
   \<and> \<not> (truthy (maxChapters (demoData (Num 2000)))
          \<and> greater (length (novel_chapters demoNovel)) (maxChapters (demoData (Num 2000))))
   \<and> buildEpub demoEnv [] = None
   \<and> failedChapters (resultMessage (downloadNovel (demoData (Num 2000)) demoEnv)) = Some 1
   \<and> success (resultMessage (downloadNovel (demoData (Num 2000)) demoEnv))"
proof -
  have h: "fetchNovelDetail demoEnv = Inr demoNovel" "pLimit demoEnv"
    "novel_title demoNovel \<noteq> []" "novel_chapters demoNovel \<noteq> []"
    "\<not> (truthy (maxChapters (demoData (Num 2000)))
          \<and> greater (length (novel_chapters demoNovel)) (maxChapters (demoData (Num 2000))))"
    by (simp_all add: demoEnv_def demoNovel_def demoData_def js_def)
  have b: "buildEpub demoEnv arr = None" for arr
    by (simp add: demoEnv_def)
  have "success (resultMessage (downloadNovel (demoData (Num 2000)) demoEnv))"
    using placeholders_reported [OF h] by (simp add: Let_def b)
  moreover have "failedChapters (resultMessage (downloadNovel (demoData (Num 2000)) demoEnv)) = Some 1"
    by (simp add: demo_run resultMessage_def)
  ultimately show ?thesis using h b by simp
qed

subsection \<open>The manifest phase\<close>

text \<open>
  C4, as stated, fails. With a ceiling of 0 the guard \<^verbatim>\<open>maxChapters && ...\<close> is falsy: a
  manifest of three chapters exceeds the ceiling, yet the Job fetches and succeeds.
\<close>

theorem ceiling_zero_counterexample:
  "fetchNovelDetail demoEnv = Inr demoNovel
   \<and> greater (length (novel_chapters demoNovel)) (maxChapters (demoData (Num 0)))
   \<and> skipped (resultMessage (downloadNovel (demoData (Num 0)) demoEnv)) = False
   \<and> success (resultMessage (downloadNovel (demoData (Num 0)) demoEnv)) = True
   \<and> fetches (downloadNovel (demoData (Num 0)) demoEnv)
       = [(0, 0), (0, 1), (0, 2), (1, 1), (1, 2), (2, 1)]"
  by (simp add: demo_run_zero demo_run resultMessage_def)
     (simp add: demoEnv_def demoData_def demoNovel_def)

text \<open>
  C4, amended. If the resolved item has an empty title or an empty chapter list, the Job
  returns a failed result (not skipped) and no fetch is attempted. Otherwise, if the
  ceiling is a nonzero number and the chapter count exceeds it, the Job returns a skipped
  result and no fetch is attempted. A ceiling of 0 or NaN switches the check off: the Job
  goes on to fetch, and its result is not a skipped one.
\<close>

theorem manifest_phase:
  assumes "fetchNovelDetail e = Inr nov"
  shows "(novel_title nov = [] \<or> novel_chapters nov = [] \<longrightarrow>
            (\<exists>r. outcome (downloadNovel cfg e) = Inr r \<and> success r = False \<and> skipped r = False)
            \<and> fetches (downloadNovel cfg e) = [] \<and> assembled (downloadNovel cfg e) = None)
       \<and> (novel_title nov \<noteq> [] \<and> novel_chapters nov \<noteq> [] \<and> maxChapters cfg = Num m
            \<and> m \<noteq> 0 \<and> m < int (length (novel_chapters nov)) \<longrightarrow>
            (\<exists>r. outcome (downloadNovel cfg e) = Inr r \<and> success r = False \<and> skipped r = True)
            \<and> fetches (downloadNovel cfg e) = [] \<and> assembled (downloadNovel cfg e) = None)
       \<and> (novel_title nov \<noteq> [] \<and> novel_chapters nov \<noteq> [] \<and> pLimit e
            \<and> (maxChapters cfg = Num 0 \<or> maxChapters cfg = NaN) \<longrightarrow>
            fetches (downloadNovel cfg e) \<noteq> []
            \<and> skipped (resultMessage (downloadNovel cfg e)) = False)"
proof (intro conjI impI)
  assume "novel_title nov = [] \<or> novel_chapters nov = []"
  then show "\<exists>r. outcome (downloadNovel cfg e) = Inr r \<and> success r = False \<and> skipped r = False"
    and "fetches (downloadNovel cfg e) = []" and "assembled (downloadNovel cfg e) = None"
    using assms by (auto simp: downloadNovel_def failure_def)
next
  assume "novel_title nov \<noteq> [] \<and> novel_chapters nov \<noteq> [] \<and> maxChapters cfg = Num m
            \<and> m \<noteq> 0 \<and> m < int (length (novel_chapters nov))"
  then show "\<exists>r. outcome (downloadNovel cfg e) = Inr r \<and> success r = False \<and> skipped r = True"
    and "fetches (downloadNovel cfg e) = []" and "assembled (downloadNovel cfg e) = None"
    using assms by (auto simp: downloadNovel_def failure_def)
next
  assume a: "novel_title nov \<noteq> [] \<and> novel_chapters nov \<noteq> [] \<and> pLimit e
            \<and> (maxChapters cfg = Num 0 \<or> maxChapters cfg = NaN)"
  then have g: "\<not> (truthy (maxChapters cfg) \<and> greater (length (novel_chapters nov)) (maxChapters cfg))"
    by auto
  obtain arr k cs where f: "fetchChapters (fetchChapterContent e) nov = (Inr (arr, k), cs)"
    using fetchChapters_complete by blast
  have cs: "cs \<noteq> []"
    using fetchChapters_calls [of nov "fetchChapterContent e"] a f by simp
  from a g assms f have r: "assembled (downloadNovel cfg e) = Some arr \<and> fetches (downloadNovel cfg e) = cs
    \<and> (buildEpub e arr = None \<longrightarrow>
         outcome (downloadNovel cfg e) =
           Inr \<lparr>success = True, skipped = False, error = None, title = Some (novel_title nov),
                 totalChapters = Some (length (novel_chapters nov)), failedChapters = Some k\<rparr>)"
    by (intro downloadNovel_run) simp_all
  show "fetches (downloadNovel cfg e) \<noteq> []" using r cs by simp
  show "skipped (resultMessage (downloadNovel cfg e)) = False"
  proof (cases "buildEpub e arr")
    case None
    with r show ?thesis by (simp add: resultMessage_def)
  next
    case (Some err)
    with a g assms f show ?thesis
      by (simp add: resultMessage_def downloadNovel_def failure_def)
  qed
qed

theorem manifest_phase_witness:
  "skipped (resultMessage (downloadNovel (demoData (Num 2)) demoEnv)) = True
   \<and> fetches (downloadNovel (demoData (Num 2)) demoEnv) = []
   \<and> skipped (resultMessage (downloadNovel (demoData NaN) demoEnv)) = False
   \<and> fetches (downloadNovel (demoData NaN) demoEnv) \<noteq> []
   \<and> success (resultMessage (downloadNovel (demoData (Num 2))
         (demoEnv\<lparr>fetchNovelDetail := Inr (demoNovel\<lparr>novel_chapters := []\<rparr>)\<rparr>))) = False
   \<and> skipped (resultMessage (downloadNovel (demoData (Num 2))
         (demoEnv\<lparr>fetchNovelDetail := Inr (demoNovel\<lparr>novel_chapters := []\<rparr>)\<rparr>))) = False"
proof -
  have d: "fetchNovelDetail demoEnv = Inr demoNovel"
    by (simp add: demoEnv_def)
  have h: "novel_title demoNovel \<noteq> [] \<and> novel_chapters demoNovel \<noteq> []
      \<and> maxChapters (demoData (Num 2)) = Num 2 \<and> (2::int) \<noteq> 0
      \<and> 2 < int (length (novel_chapters demoNovel))"
    by (simp add: demoNovel_def demoData_def js_def)
  have n: "novel_title demoNovel \<noteq> [] \<and> novel_chapters demoNovel \<noteq> [] \<and> pLimit demoEnv
      \<and> (maxChapters (demoData NaN) = Num 0 \<or> maxChapters (demoData NaN) = NaN)"
    by (simp add: demoNovel_def demoData_def demoEnv_def js_def)
  have e: "fetchNovelDetail (demoEnv\<lparr>fetchNovelDetail := Inr (demoNovel\<lparr>novel_chapters := []\<rparr>)\<rparr>)
      = Inr (demoNovel\<lparr>novel_chapters := []\<rparr>)"
    by simp
  have z: "novel_title (demoNovel\<lparr>novel_chapters := []\<rparr>) = []
      \<or> novel_chapters (demoNovel\<lparr>novel_chapters := []\<rparr>) = []"
    by simp
  note s = manifest_phase [OF d, of "demoData (Num 2)" 2, THEN conjunct2, THEN conjunct1, rule_format, OF h]
  note t = manifest_phase [OF d, of "demoData NaN" 0, THEN conjunct2, THEN conjunct2, rule_format, OF n]
  note u = manifest_phase [OF e, of "demoData (Num 2)" 0, THEN conjunct1, rule_format, OF z]
  from s have "skipped (resultMessage (downloadNovel (demoData (Num 2)) demoEnv)) = True"
    by (auto simp: resultMessage_def)
  moreover from u have "success (resultMessage (downloadNovel (demoData (Num 2))
         (demoEnv\<lparr>fetchNovelDetail := Inr (demoNovel\<lparr>novel_chapters := []\<rparr>)\<rparr>))) = False
     \<and> skipped (resultMessage (downloadNovel (demoData (Num 2))
         (demoEnv\<lparr>fetchNovelDetail := Inr (demoNovel\<lparr>novel_chapters := []\<rparr>)\<rparr>))) = False"
    by (auto simp: resultMessage_def)
  ultimately show ?thesis using s t by blast
qed

section \<open>Properties of the Fetcher\<close>

lemma cycle_redirects:
  "\<exists>loc. cycle t url = Response (if url = js ''/a'' then 302 else 301) (Some loc) (Inr []) None \<and> loc \<noteq> []"
  by (simp add: cycle_def js_def)

lemma cycle_unsettled:
  assumes "fetchWithBypassRaw net newURL timer t url = Some r"
  shows "\<not> (net = cycle \<and> newURL = absolute \<and> timer = None)"
proof (rule fetchWithBypassRaw.raw_induct
    [where P = "\<lambda>net newURL timer t url r. \<not> (net = cycle \<and> newURL = absolute \<and> timer = None)", OF _ assms])
  fix f :: "network \<Rightarrow> resolver \<Rightarrow> timer \<Rightarrow> nat \<Rightarrow> jsstring \<Rightarrow> ((jsstring + jsstring) \<times> nat) option"
    and net newURL timer t url r
  assume IH: "\<And>net newURL timer t url r. f net newURL timer t url = Some r \<Longrightarrow>
      \<not> (net = cycle \<and> newURL = absolute \<and> timer = None)"
  assume step: "(if fires timer then Some (Inl (snd (the timer)), t + 1)
      else
        (case net t url of
           RequestError msg \<Rightarrow> Some (Inl msg, t + 1)
         | Response statusCode location body stall \<Rightarrow>
             if 300 \<le> statusCode \<and> statusCode < 400 \<and> location \<noteq> None \<and> location \<noteq> Some [] then
               (case newURL (the location) url of
                  None \<Rightarrow> None
                | Some redirectUrl \<Rightarrow>
                    f net newURL (nearest (tick timer) stall) (t + 1) redirectUrl)
             else if statusCode < 200 \<or> 300 \<le> statusCode then
               Some (Inl (js ''HTTP '' @ decimal statusCode @ js '' for '' @ url), t + 1)
             else Some (body, t + 1))) = Some r"
  show "\<not> (net = cycle \<and> newURL = absolute \<and> timer = None)"
  proof
    assume c: "net = cycle \<and> newURL = absolute \<and> timer = None"
    obtain loc where "cycle t url = Response (if url = js ''/a'' then 302 else 301) (Some loc) (Inr []) None"
      and "loc \<noteq> []"
      using cycle_redirects by blast
    with step c have "f cycle absolute None (t + 1) loc = Some r"
      by (simp add: absolute_def fires_def tick_def nearest_def split: if_splits)
    with IH show False by blast
  qed
qed

lemma cycle_never: "fetchWithBypassRaw cycle absolute None t url = None"
  using cycle_unsettled [of cycle absolute None t url]
  by (cases "fetchWithBypassRaw cycle absolute None t url") auto

lemma nearest_Some:
  "\<exists>j msg'. nearest (Some (k, msg)) own = Some (j, msg') \<and> j \<le> k"
  by (auto simp: nearest_def split: option.splits)

lemma timed_settles:
  assumes "\<forall>location base. newURL location base \<noteq> None"
  shows "fetchWithBypassRaw net newURL (Some (k, msg)) t url \<noteq> None"
proof (induction k arbitrary: msg t url rule: less_induct)
  case (less k)
  show ?case
  proof (cases "k = 0")
    case True
    then show ?thesis by (subst fetchWithBypassRaw.simps) (simp add: fires_def)
  next
    case False
    have n: "\<not> fires (Some (k, msg))" using False by (simp add: fires_def)
    have inner: "fetchWithBypassRaw net newURL (nearest (tick (Some (k, msg))) stall) t' u \<noteq> None"
      for stall t' u
    proof -
      obtain j msg' where "nearest (Some (k - 1, msg)) stall = Some (j, msg')" and "j \<le> k - 1"
        using nearest_Some by blast
      moreover have "j < k" using \<open>j \<le> k - 1\<close> False by simp
      ultimately show ?thesis using less [of j msg' t' u] by (simp add: tick_def)
    qed
    show ?thesis
    proof (cases "net t url")
      case (RequestError m)
      with n show ?thesis by (subst fetchWithBypassRaw.simps) simp
    next
      case (Response statusCode location body stall)
      from assms have "newURL (the location) url \<noteq> None" by blast
      then obtain target where "newURL (the location) url = Some target" by auto
      with Response n inner [of stall "t + 1" target] show ?thesis
        by (subst fetchWithBypassRaw.simps) simp
    qed
  qed
qed

lemma armed_settles:
  assumes "\<forall>location base. newURL location base \<noteq> None"
    and "\<forall>t u statusCode location body. net t u \<noteq> Response statusCode location body None"
  shows "fetchWithBypassRaw net newURL None t url \<noteq> None"
proof (cases "net t url")
  case (RequestError m)
  then show ?thesis by (subst fetchWithBypassRaw.simps) (simp add: fires_def)
next
  case (Response statusCode location body stall)
  with assms(2) obtain k msg where s: "stall = Some (k, msg)" by (cases stall) auto
  from assms(1) have "newURL (the location) url \<noteq> None" by blast
  then obtain target where t: "newURL (the location) url = Some target" by auto
  have "fetchWithBypassRaw net newURL (Some (k, msg)) (t + 1) target \<noteq> None"
    using assms(1) by (rule timed_settles)
  with Response s t show ?thesis
    by (subst fetchWithBypassRaw.simps) (simp add: fires_def tick_def nearest_def)
qed

declare retryFrom.simps [simp del]

lemma retryFrom_settles:
  assumes "\<forall>t. fetchWithBypassRaw net newURL None t url \<noteq> None"
  shows "i \<le> retries \<Longrightarrow>
     \<exists>r. retryFrom net newURL url retries i t = Some r \<and> i < attempts r \<and> attempts r \<le> retries + 1
          \<and> settled r \<noteq> Inr None"
  using assms
proof (induction net newURL url retries i t rule: retryFrom.induct)
  case (1 net newURL url retries i t)
  from "1.prems" have "fetchWithBypassRaw net newURL None t url \<noteq> None" by blast
  then obtain res t' where f: "fetchWithBypassRaw net newURL None t url = Some (res, t')"
    by (cases "fetchWithBypassRaw net newURL None t url") auto
  show ?case
  proof (cases res)
    case (Inr body)
    with f "1.prems" show ?thesis by (subst retryFrom.simps) simp
  next
    case (Inl err)
    show ?thesis
    proof (cases "i = retries")
      case True
      with f Inl "1.prems" show ?thesis by (subst retryFrom.simps) simp
    next
      case False
      with "1.prems" have le: "i + 1 \<le> retries" by simp
      from "1.IH" [OF "1.prems"(1) f refl Inl False le "1.prems"(2)]
      obtain r where "retryFrom net newURL url retries (i + 1) t' = Some r"
        "i + 1 < attempts r" "attempts r \<le> retries + 1" "settled r \<noteq> Inr None"
        by auto
      with f Inl False "1.prems" show ?thesis by (subst retryFrom.simps) simp
    qed
  qed
qed

lemma retryFrom_unsettled:
  "fetchWithBypassRaw net newURL None t url = None \<Longrightarrow> retry net newURL url t = None"
  unfolding retry_def by (subst retryFrom.simps) simp

lemma chain_fetch:
  "fetchWithBypassRaw chain absolute None t (js ''/'') = Some (Inr (js ''ok''), t + 8)"
  by (simp add: fetchWithBypassRaw.simps chain_def absolute_def js_def fires_def tick_def nearest_def)

lemma flaky_fetch:
  "fetchWithBypassRaw flaky absolute None t (js ''/'') =
     Some (if t < 2 then Inl (js ''HTTP 503 for /'') else Inr (js ''ok''), t + 1)"
  by (simp add: fetchWithBypassRaw.simps flaky_def js_def fires_def)

lemma stalled_fetch:
  "fetchWithBypassRaw stalled absolute None t (js ''/a'') = Some (Inl (js ''Timeout for /a''), t + 4)"
  by (simp add: fetchWithBypassRaw.simps stalled_def absolute_def js_def fires_def tick_def nearest_def)

text \<open>
  C8, as stated, fails. On a redirect cycle on which no request's timeout or error handler
  fires, \<^verbatim>\<open>fetchWithBypassRaw\<close> calls itself for ever: its promise never settles, so
  \<^verbatim>\<open>retry\<close> never sees a rejection and the fetch call does not end. Nothing counts
  redirects, neither a counter of their own nor the retry budget.
\<close>

theorem redirect_cycle_counterexample:
  "retry cycle absolute (js ''/a'') 0 = None"
  unfolding retry_def by (subst retryFrom.simps) (simp add: cycle_never)

text \<open>
  C8, amended. The Fetcher follows a redirect by re-issuing the request against the target
  location inside the same attempt; a redirect hop is not counted at all, neither against
  the retry budget nor by a counter of its own. While the chain runs, the timeout and
  error handlers of the requests already made stay armed, and the attempt is rejected
  when one of them fires. A fetch call makes at most six attempts and ends with a body or
  an error provided each attempt ends, which is so whenever every response leaves a
  handler that fires; when an attempt follows redirects for ever and no handler fires,
  the call never settles.
\<close>

theorem fetch_redirects:
  "(\<not> fires timer \<and> net t url = Response statusCode (Some location) body stall
      \<and> 300 \<le> statusCode \<and> statusCode < 400
      \<and> location \<noteq> [] \<and> newURL location url = Some redirectUrl \<longrightarrow>
      fetchWithBypassRaw net newURL timer t url =
        fetchWithBypassRaw net newURL (nearest (tick timer) stall) (t + 1) redirectUrl)
   \<and> (fires timer \<longrightarrow> (\<exists>msg. fetchWithBypassRaw net newURL timer t url = Some (Inl msg, t + 1)))
   \<and> ((\<forall>t. fetchWithBypassRaw net newURL None t url \<noteq> None) \<longrightarrow>
        (\<exists>r. retry net newURL url t = Some r \<and> 1 \<le> attempts r \<and> attempts r \<le> 6
             \<and> settled r \<noteq> Inr None))
   \<and> ((\<forall>location base. newURL location base \<noteq> None)
        \<and> (\<forall>t u statusCode location body. net t u \<noteq> Response statusCode location body None) \<longrightarrow>
        (\<exists>r. retry net newURL url t = Some r \<and> 1 \<le> attempts r \<and> attempts r \<le> 6
             \<and> settled r \<noteq> Inr None))
   \<and> (fetchWithBypassRaw net newURL None t url = None \<longrightarrow> retry net newURL url t = None)"
proof (intro conjI impI)
  assume "\<not> fires timer \<and> net t url = Response statusCode (Some location) body stall
      \<and> 300 \<le> statusCode \<and> statusCode < 400
      \<and> location \<noteq> [] \<and> newURL location url = Some redirectUrl"
  then show "fetchWithBypassRaw net newURL timer t url =
        fetchWithBypassRaw net newURL (nearest (tick timer) stall) (t + 1) redirectUrl"
    by (subst fetchWithBypassRaw.simps) simp
next
  assume "fires timer"
  then show "\<exists>msg. fetchWithBypassRaw net newURL timer t url = Some (Inl msg, t + 1)"
    by (subst fetchWithBypassRaw.simps) simp
next
  assume "\<forall>t. fetchWithBypassRaw net newURL None t url \<noteq> None"
  from retryFrom_settles [OF this, of 0 5 t]
  show "\<exists>r. retry net newURL url t = Some r \<and> 1 \<le> attempts r \<and> attempts r \<le> 6 \<and> settled r \<noteq> Inr None"
    unfolding retry_def by auto
next
  assume a: "(\<forall>location base. newURL location base \<noteq> None)
        \<and> (\<forall>t u statusCode location body. net t u \<noteq> Response statusCode location body None)"
  then have "\<forall>t. fetchWithBypassRaw net newURL None t url \<noteq> None"
    using armed_settles [of newURL net] by blast
  from retryFrom_settles [OF this, of 0 5 t]
  show "\<exists>r. retry net newURL url t = Some r \<and> 1 \<le> attempts r \<and> attempts r \<le> 6 \<and> settled r \<noteq> Inr None"
    unfolding retry_def by auto
next
  assume "fetchWithBypassRaw net newURL None t url = None"
  then show "retry net newURL url t = None" by (rule retryFrom_unsettled)
qed

theorem fetch_redirects_witness:
  "retry chain absolute (js ''/'') 0 = Some \<lparr>settled = Inr (Some (js ''ok'')), requests = 8, attempts = 1\<rparr>
   \<and> retry flaky absolute (js ''/'') 0 = Some \<lparr>settled = Inr (Some (js ''ok'')), requests = 3, attempts = 3\<rparr>
   \<and> retry stalled absolute (js ''/a'') 0
       = Some \<lparr>settled = Inl (js ''Timeout for /a''), requests = 24, attempts = 6\<rparr>
   \<and> fetchWithBypassRaw cycle absolute None 0 (js ''/a'') = fetchWithBypassRaw cycle absolute None 1 (js ''/b'')"
proof -
  have c: "\<forall>t. fetchWithBypassRaw chain absolute None t (js ''/'') \<noteq> None"
    by (simp add: chain_fetch)
  have 1: "retry chain absolute (js ''/'') 0 = Some \<lparr>settled = Inr (Some (js ''ok'')), requests = 8, attempts = 1\<rparr>"
    using fetch_redirects [of None chain 0 "js ''/''" 0 "[]" "Inr []" None absolute "[]",
        THEN conjunct2, THEN conjunct2, THEN conjunct1, THEN mp, OF c]
    unfolding retry_def by (subst retryFrom.simps) (simp add: chain_fetch)
  have 2: "retry flaky absolute (js ''/'') 0 = Some \<lparr>settled = Inr (Some (js ''ok'')), requests = 3, attempts = 3\<rparr>"
    unfolding retry_def by (simp add: retryFrom.simps flaky_fetch)
  have a: "(\<forall>location base. absolute location base \<noteq> None)
        \<and> (\<forall>t u statusCode location body. stalled t u \<noteq> Response statusCode location body None)"
    by (simp add: absolute_def stalled_def)
  have 3: "retry stalled absolute (js ''/a'') 0
       = Some \<lparr>settled = Inl (js ''Timeout for /a''), requests = 24, attempts = 6\<rparr>"
    using fetch_redirects [of None stalled 0 "js ''/a''" 0 "[]" "Inr []" None absolute "[]",
        THEN conjunct2, THEN conjunct2, THEN conjunct2, THEN conjunct1, THEN mp, OF a]
    unfolding retry_def by (simp add: retryFrom.simps stalled_fetch)
  have h: "\<not> fires None \<and> cycle 0 (js ''/a'') = Response 302 (Some (js ''/b'')) (Inr []) None
      \<and> (300::nat) \<le> 302 \<and> (302::nat) < 400
      \<and> js ''/b'' \<noteq> [] \<and> absolute (js ''/b'') (js ''/a'') = Some (js ''/b'')"
    by (simp add: cycle_def absolute_def js_def fires_def)
  have 4: "fetchWithBypassRaw cycle absolute None 0 (js ''/a'') = fetchWithBypassRaw cycle absolute None 1 (js ''/b'')"
    using fetch_redirects [of None cycle 0 "js ''/a''" 302 "js ''/b''" "Inr []" None absolute "js ''/b''",
        THEN conjunct1, THEN mp, OF h]
    by (simp add: tick_def nearest_def)
  from 1 2 3 4 show ?thesis by blast
qed

section \<open>Properties of the Worker Pool Coordinator\<close>

subsection \<open>The invariant holds in every reachable pool\<close>

declare dispatch.simps [simp del]

lemma inv_start: "pool_inv (start n)"
  by (simp add: pool_inv_def start_def)

lemma dispatch_shape:
  "\<exists>i q n h. dispatch s = s\<lparr>idle := i, queue := q, stats_inProgress := n, holding := h\<rparr>"
proof (induction s rule: dispatch.induct)
  case (1 s)
  show ?case
  proof (cases "length (idle s) > 0 \<and> length (queue s) > 0")
    case False
    then have "dispatch s = s" by (subst dispatch.simps) auto
    then have "dispatch s = s\<lparr>idle := idle s, queue := queue s,
        stats_inProgress := stats_inProgress s, holding := holding s\<rparr>" by simp
    then show ?thesis by blast
  next
    case True
    let ?s = "s\<lparr>idle := tl (idle s), queue := tl (queue s),
                 stats_inProgress := stats_inProgress s + 1,
                 holding := (holding s)(hd (idle s) := holding s (hd (idle s)) + 1)\<rparr>"
    from "1.IH" [OF True refl refl] obtain i q n h
      where "dispatch ?s = ?s\<lparr>idle := i, queue := q, stats_inProgress := n, holding := h\<rparr>"
      by blast
    moreover have "dispatch s = dispatch ?s"
      using True by (subst dispatch.simps) (simp add: Let_def)
    ultimately have "dispatch s = s\<lparr>idle := i, queue := q, stats_inProgress := n, holding := h\<rparr>"
      by simp
    then show ?thesis by blast
  qed
qed

lemma dispatch_frame:
  "pool_size (dispatch s) = pool_size s \<and> workers (dispatch s) = workers s
   \<and> starting (dispatch s) = starting s \<and> alive (dispatch s) = alive s
   \<and> spawned (dispatch s) = spawned s \<and> ident (dispatch s) = ident s
   \<and> resolved (dispatch s) = resolved s \<and> resolveAllDone (dispatch s) = resolveAllDone s
   \<and> promises (dispatch s) = promises s \<and> stats_failed (dispatch s) = stats_failed s
   \<and> stats_succeeded (dispatch s) = stats_succeeded s \<and> stats_skipped (dispatch s) = stats_skipped s"
proof -
  obtain i q n h where "dispatch s = s\<lparr>idle := i, queue := q, stats_inProgress := n, holding := h\<rparr>"
    using dispatch_shape by blast
  then show ?thesis by simp
qed

lemma inv_dispatch_step:
  assumes "pool_inv s" and "idle s = w # rest"
  shows "pool_inv (s\<lparr>idle := rest, queue := q, stats_inProgress := stats_inProgress s + 1,
                     holding := (holding s)(w := holding s w + 1)\<rparr>)"
proof -
  from assms have h: "holding s w = 0" "w < spawned s" "w \<notin> set rest" "w \<notin> set (starting s)"
    by (auto simp: pool_inv_def)
  show ?thesis
    unfolding pool_inv_def
  proof (intro conjI)
    show "\<forall>wa. holding (s\<lparr>idle := rest, queue := q, stats_inProgress := stats_inProgress s + 1,
                     holding := (holding s)(w := holding s w + 1)\<rparr>) wa \<le> 1"
      using assms h by (simp add: pool_inv_def)
  qed (use assms h in \<open>auto simp: pool_inv_def\<close>)
qed

lemma inv_dispatch: "pool_inv s \<Longrightarrow> pool_inv (dispatch s)"
proof (induction s rule: dispatch.induct)
  case (1 s)
  show ?case
  proof (cases "length (idle s) > 0 \<and> length (queue s) > 0")
    case False
    with "1.prems" show ?thesis by (subst dispatch.simps) auto
  next
    case True
    then obtain w rest where i: "idle s = w # rest" by (cases "idle s") auto
    let ?s = "s\<lparr>idle := tl (idle s), queue := tl (queue s),
                 stats_inProgress := stats_inProgress s + 1,
                 holding := (holding s)(hd (idle s) := holding s (hd (idle s)) + 1)\<rparr>"
    have "pool_inv ?s"
      using inv_dispatch_step [OF "1.prems" i, of "tl (queue s)"] i by simp
    with "1.IH" [OF True refl refl] have "pool_inv (dispatch ?s)" by simp
    then show ?thesis using True by (subst dispatch.simps) (simp add: Let_def)
  qed
qed

lemma inv_checkDone: "pool_inv s \<Longrightarrow> pool_inv (checkDone s)"
  unfolding pool_inv_def checkDone_def by (auto split: option.splits)

lemma indexOf_ge: "- 1 \<le> indexOf ws w"
  by (induction ws) (auto simp: Let_def)

lemma indexOf_found:
  "w \<in> set ws \<Longrightarrow> 0 \<le> indexOf ws w \<and> nat (indexOf ws w) < length ws \<and> ws ! nat (indexOf ws w) = w"
proof (induction ws)
  case Nil
  then show ?case by simp
next
  case (Cons x ws)
  show ?case
  proof (cases "x = w")
    case True
    then show ?thesis by simp
  next
    case False
    with Cons have "0 \<le> indexOf ws w \<and> nat (indexOf ws w) < length ws \<and> ws ! nat (indexOf ws w) = w"
      by simp
    with False show ?thesis by (simp add: Let_def nat_add_distrib)
  qed
qed

lemma indexOf_missing: "w \<notin> set ws \<Longrightarrow> indexOf ws w = - 1"
  by (induction ws) (auto simp: Let_def)

lemma set_update_other: "x \<in> set xs \<Longrightarrow> x \<noteq> xs ! i \<Longrightarrow> x \<in> set (xs[i := y])"
  by (metis in_set_conv_nth length_list_update nth_list_update_neq)

lemma inv_enqueue: "pool_inv s \<Longrightarrow> pool_inv (enqueue novels s)"
proof -
  assume "pool_inv s"
  then have "pool_inv (s\<lparr>queue := queue s @ novels, totalQueued := length (queue s @ novels)\<rparr>)"
    by (simp add: pool_inv_def)
  then show ?thesis unfolding enqueue_def by (rule inv_dispatch)
qed

lemma inv_waitUntilDone: "pool_inv s \<Longrightarrow> pool_inv (waitUntilDone s)"
  unfolding pool_inv_def waitUntilDone_def by (auto simp: less_Suc_eq)

lemma inv_release:
  assumes "pool_inv s" and "holding s w > 0"
  shows "pool_inv (s\<lparr>stats_inProgress := stats_inProgress s - 1,
                     holding := (holding s)(w := holding s w - 1), idle := idle s @ [w]\<rparr>)"
proof -
  from assms(1) have le: "holding s w \<le> 1" by (simp add: pool_inv_def)
  with assms(2) have h1: "holding s w = 1" by simp
  have h2: "w \<notin> set (idle s)" "w \<notin> set (starting s)"
    using assms by (auto simp: pool_inv_def)
  have h3: "w < spawned s"
  proof (rule ccontr)
    assume "\<not> w < spawned s"
    then have "spawned s \<le> w" by simp
    with assms(1) have "holding s w = 0" by (simp add: pool_inv_def)
    with assms(2) show False by simp
  qed
  let ?x = "s\<lparr>stats_inProgress := stats_inProgress s - 1,
               holding := (holding s)(w := holding s w - 1), idle := idle s @ [w]\<rparr>"
  show ?thesis
    unfolding pool_inv_def
  proof (intro conjI)
    show "distinct (idle ?x @ starting ?x)"
      using assms(1) h2 by (simp add: pool_inv_def)
    show "\<forall>wa\<in>set (idle ?x @ starting ?x). holding ?x wa = 0 \<and> wa < spawned ?x"
      using assms(1) h1 h3 by (simp add: pool_inv_def)
    show "\<forall>wa. holding ?x wa \<le> 1"
      using assms(1) by (simp add: pool_inv_def)
    show "\<forall>wa. spawned ?x \<le> wa \<longrightarrow> holding ?x wa = 0 \<and> \<not> alive ?x wa"
      using assms(1) by (simp add: pool_inv_def)
  qed (use assms(1) in \<open>simp_all add: pool_inv_def\<close>)
qed

lemma inv_result:
  assumes "pool_inv s" and "holding s w > 0"
  shows "pool_inv (handleMessage w (ResultMsg res) s)"
proof -
  let ?s1 = "s\<lparr>stats_inProgress := stats_inProgress s - 1,
                holding := (holding s)(w := holding s w - 1)\<rparr>"
  have 1: "pool_inv (?s1\<lparr>idle := idle ?s1 @ [w]\<rparr>)"
    using inv_release [OF assms] by simp
  have c: "pool_inv (t\<lparr>idle := idle t @ [w]\<rparr>) \<Longrightarrow>
      pool_inv (checkDone (dispatch (t\<lparr>stats_succeeded := a, idle := idle t @ [w]\<rparr>)))
      \<and> pool_inv (checkDone (dispatch (t\<lparr>stats_skipped := a, idle := idle t @ [w]\<rparr>)))
      \<and> pool_inv (checkDone (dispatch (t\<lparr>stats_failed := a, idle := idle t @ [w]\<rparr>)))" for t a
    by (intro conjI inv_checkDone inv_dispatch) (simp_all add: pool_inv_def)
  show ?thesis
    unfolding handleMessage_def using c [OF 1] by (simp add: Let_def)
qed

lemma inv_fault:
  assumes "pool_inv s" and "alive s w"
  shows "pool_inv (handleError w s)"
proof -
  from assms have m: "w \<in> set (workers s)" by (simp add: pool_inv_def)
  note f = indexOf_found [OF m]
  then have ne: "indexOf (workers s) w \<noteq> - 1" by auto
  let ?n = "spawned s"
  have e: "handleError w s =
      s\<lparr>stats_inProgress := stats_inProgress s - 1, stats_failed := stats_failed s + 1,
        alive := (alive s)(w := False, ?n := True),
        spawned := ?n + 1, ident := (ident s)(?n := ident s w),
        workers := (workers s)[nat (indexOf (workers s) w) := ?n],
        starting := starting s @ [?n]\<rparr>"
    using ne by (simp add: handleError_def Let_def)
  have fresh: "?n \<notin> set (idle s)" "?n \<notin> set (starting s)" "holding s ?n = 0"
    using assms(1) unfolding pool_inv_def by (fastforce, fastforce, simp)
  have a: "\<forall>x. ((alive s)(w := False, ?n := True)) x \<longrightarrow>
        x \<in> set ((workers s)[nat (indexOf (workers s) w) := ?n])"
  proof (intro allI impI)
    fix x assume x: "((alive s)(w := False, ?n := True)) x"
    show "x \<in> set ((workers s)[nat (indexOf (workers s) w) := ?n])"
    proof (cases "x = ?n")
      case True
      with f show ?thesis by (simp add: set_update_memI)
    next
      case False
      with x have "alive s x" "x \<noteq> w" by (auto split: if_splits)
      then have "x \<in> set (workers s)" "x \<noteq> workers s ! nat (indexOf (workers s) w)"
        using assms(1) f by (auto simp: pool_inv_def)
      then show ?thesis by (rule set_update_other)
    qed
  qed
  show ?thesis
    unfolding e pool_inv_def
  proof (intro conjI)
    show "\<forall>wa. alive (s\<lparr>stats_inProgress := stats_inProgress s - 1, stats_failed := stats_failed s + 1,
        alive := (alive s)(w := False, ?n := True),
        spawned := ?n + 1, ident := (ident s)(?n := ident s w),
        workers := (workers s)[nat (indexOf (workers s) w) := ?n],
        starting := starting s @ [?n]\<rparr>) wa \<longrightarrow>
        wa \<in> set (workers (s\<lparr>stats_inProgress := stats_inProgress s - 1, stats_failed := stats_failed s + 1,
        alive := (alive s)(w := False, ?n := True),
        spawned := ?n + 1, ident := (ident s)(?n := ident s w),
        workers := (workers s)[nat (indexOf (workers s) w) := ?n],
        starting := starting s @ [?n]\<rparr>))"
      using a by simp
  next
    show "\<forall>wa\<in>set (idle (s\<lparr>stats_inProgress := stats_inProgress s - 1, stats_failed := stats_failed s + 1,
        alive := (alive s)(w := False, ?n := True),
        spawned := ?n + 1, ident := (ident s)(?n := ident s w),
        workers := (workers s)[nat (indexOf (workers s) w) := ?n],
        starting := starting s @ [?n]\<rparr>) @ starting (s\<lparr>stats_inProgress := stats_inProgress s - 1, stats_failed := stats_failed s + 1,
        alive := (alive s)(w := False, ?n := True),
        spawned := ?n + 1, ident := (ident s)(?n := ident s w),
        workers := (workers s)[nat (indexOf (workers s) w) := ?n],
        starting := starting s @ [?n]\<rparr>)).
        holding (s\<lparr>stats_inProgress := stats_inProgress s - 1, stats_failed := stats_failed s + 1,
        alive := (alive s)(w := False, ?n := True),
        spawned := ?n + 1, ident := (ident s)(?n := ident s w),
        workers := (workers s)[nat (indexOf (workers s) w) := ?n],
        starting := starting s @ [?n]\<rparr>) wa = 0 \<and> wa < spawned (s\<lparr>stats_inProgress := stats_inProgress s - 1, stats_failed := stats_failed s + 1,
        alive := (alive s)(w := False, ?n := True),
        spawned := ?n + 1, ident := (ident s)(?n := ident s w),
        workers := (workers s)[nat (indexOf (workers s) w) := ?n],
        starting := starting s @ [?n]\<rparr>)"
      using assms(1) fresh by (auto simp: pool_inv_def less_SucI)
  next
    show "\<forall>wa\<in>set (workers (s\<lparr>stats_inProgress := stats_inProgress s - 1, stats_failed := stats_failed s + 1,
        alive := (alive s)(w := False, ?n := True),
        spawned := ?n + 1, ident := (ident s)(?n := ident s w),
        workers := (workers s)[nat (indexOf (workers s) w) := ?n],
        starting := starting s @ [?n]\<rparr>)). wa < spawned (s\<lparr>stats_inProgress := stats_inProgress s - 1, stats_failed := stats_failed s + 1,
        alive := (alive s)(w := False, ?n := True),
        spawned := ?n + 1, ident := (ident s)(?n := ident s w),
        workers := (workers s)[nat (indexOf (workers s) w) := ?n],
        starting := starting s @ [?n]\<rparr>)"
      using assms(1) set_update_subset_insert [of "workers s" "nat (indexOf (workers s) w)" ?n]
      by (auto simp: pool_inv_def less_SucI)
  qed (use assms(1) fresh in \<open>auto simp: pool_inv_def\<close>)
qed

lemma inv_ready:
  assumes "pool_inv s" and "w \<in> set (starting s)"
  shows "pool_inv (onReady w s)"
proof -
  have l: "length (removeAll w (starting s)) < length (starting s)"
    using assms(2) by (simp add: length_removeAll_less)
  have "pool_inv (s\<lparr>starting := removeAll w (starting s), idle := idle s @ [w]\<rparr>)"
    using assms l unfolding pool_inv_def by (auto simp: distinct_removeAll)
  then show ?thesis unfolding onReady_def by (intro inv_checkDone inv_dispatch)
qed

lemma inv_handle: "pool_inv s \<Longrightarrow> enabled s e \<Longrightarrow> pool_inv (handle e s)"
proof (cases e)
  case (Message w msg)
  assume "pool_inv s" "enabled s e"
  with Message show ?thesis
    by (cases msg) (simp_all add: inv_result, simp_all add: handleMessage_def)
qed (simp_all add: inv_enqueue inv_waitUntilDone inv_fault inv_ready)

lemma inv_run: "pool_inv s \<Longrightarrow> run es s = Some t \<Longrightarrow> pool_inv t"
proof (induction es arbitrary: s)
  case Nil
  then show ?case by simp
next
  case (Cons e es)
  from Cons.prems(2) have en: "enabled s e" and r: "run es (handle e s) = Some t"
    by (auto split: if_splits)
  from Cons.prems(1) en have "pool_inv (handle e s)" by (rule inv_handle)
  then show ?case using r by (rule Cons.IH)
qed

lemma checkDone_frame:
  "pool_size (checkDone s) = pool_size s \<and> workers (checkDone s) = workers s
   \<and> starting (checkDone s) = starting s \<and> idle (checkDone s) = idle s
   \<and> queue (checkDone s) = queue s \<and> stats_inProgress (checkDone s) = stats_inProgress s
   \<and> holding (checkDone s) = holding s \<and> spawned (checkDone s) = spawned s"
  by (simp add: checkDone_def split: option.splits)



lemma dispatch_stop: "idle s = [] \<or> queue s = [] \<Longrightarrow> dispatch s = s"
  by (subst dispatch.simps) auto

lemma dispatch_go:
  "idle s = w # ws \<Longrightarrow> queue s = q # qs \<Longrightarrow>
   dispatch s = dispatch (s\<lparr>idle := ws, queue := qs, stats_inProgress := stats_inProgress s + 1,
                             holding := (holding s)(w := holding s w + 1)\<rparr>)"
  by (subst dispatch.simps) (simp add: Let_def)


subsection \<open>Bounds\<close>



subsection \<open>Faults\<close>











subsection \<open>Completion\<close>

text \<open>
  C6, as stated, fails. With one Worker and one job, the Worker faults on its job while
  \<^verbatim>\<open>waitUntilDone\<close> is pending: the queue is empty and the in-flight count is zero, but the
  promise is not resolved; it is resolved when the replacement reports ready. The run is
  orderly.
\<close>

theorem waitUntilDone_counterexample:
  "map_option (\<lambda>s. (stats_inProgress s, queue s, resolveAllDone s, resolved s))
     (run [Enqueue [novelA], WaitUntilDone] (start 1)) = Some (1, [], Some 0, [])
   \<and> map_option (\<lambda>s. (stats_inProgress s, queue s, resolveAllDone s, resolved s))
     (run [Enqueue [novelA], WaitUntilDone, Fault 0] (start 1)) = Some (0, [], Some 0, [])
   \<and> map_option (\<lambda>s. (stats_inProgress s, queue s, resolveAllDone s, resolved s))
     (run [Enqueue [novelA], WaitUntilDone, Fault 0, Ready 1] (start 1)) = Some (0, [], None, [0])
   \<and> orderly [Enqueue [novelA], WaitUntilDone, Fault 0, Ready 1] (start 1)"
  by (simp add: start_def enqueue_def waitUntilDone_def handleError_def onReady_def checkDone_def
      novelA_def dispatch_go dispatch_stop Let_def)

text \<open>
  In an orderly run \<^verbatim>\<open>stats.inProgress\<close> is the number of live Workers that hold a job,
  and idle and starting Workers are alive.
\<close>

lemma alive_spawned: "pool_inv s \<Longrightarrow> alive s w \<Longrightarrow> w < spawned s"
proof (rule ccontr)
  assume i: "pool_inv s" and a: "alive s w" and "\<not> w < spawned s"
  then have "spawned s \<le> w" by simp
  moreover from i have "\<forall>w. spawned s \<le> w \<longrightarrow> holding s w = 0 \<and> \<not> alive s w"
    unfolding pool_inv_def by (elim conjE)
  ultimately show False using a by blast
qed

lemma busy_finite: "pool_inv s \<Longrightarrow> finite (busy s)"
proof -
  assume "pool_inv s"
  then have "busy s \<subseteq> {..<spawned s}"
    using alive_spawned by (auto simp: busy_def)
  then show ?thesis by (rule finite_subset) simp
qed

lemma inFlight_card: "pool_inv s \<Longrightarrow> inFlight s = card (busy s)"
proof -
  assume "pool_inv s"
  then have "busy s = {w. w < spawned s \<and> alive s w \<and> holding s w > 0}"
    using alive_spawned by (auto simp: busy_def)
  moreover have "inFlight s = card {w. w < spawned s \<and> alive s w \<and> holding s w > 0}"
  proof -
    have "{i. i < spawned s \<and> alive s ([0..<spawned s] ! i) \<and> 0 < holding s ([0..<spawned s] ! i)}
          = {w. w < spawned s \<and> alive s w \<and> 0 < holding s w}"
      by auto
    then show ?thesis unfolding inFlight_def by (simp add: length_filter_conv_card)
  qed
  ultimately show ?thesis by simp
qed

lemma acc_start: "pool_acc (start n)"
  by (simp add: pool_acc_def busy_def start_def)

lemma acc_dispatch_step:
  assumes "pool_inv s" and "pool_acc s" and "idle s = w # rest"
  shows "pool_acc (s\<lparr>idle := rest, queue := q, stats_inProgress := stats_inProgress s + 1,
                     holding := (holding s)(w := holding s w + 1)\<rparr>)"
proof -
  from assms have h: "holding s w = 0" "alive s w"
    by (auto simp: pool_inv_def pool_acc_def)
  have b: "busy (s\<lparr>idle := rest, queue := q, stats_inProgress := stats_inProgress s + 1,
                     holding := (holding s)(w := holding s w + 1)\<rparr>) = insert w (busy s)"
    using h by (auto simp: busy_def)
  have n: "w \<notin> busy s" using h by (simp add: busy_def)
  have "card (insert w (busy s)) = Suc (card (busy s))"
    using busy_finite [OF assms(1)] n by simp
  with assms(2,3) show ?thesis
    unfolding pool_acc_def b by simp
qed

lemma acc_dispatch: "pool_inv s \<Longrightarrow> pool_acc s \<Longrightarrow> pool_acc (dispatch s)"
proof (induction s rule: dispatch.induct)
  case (1 s)
  show ?case
  proof (cases "length (idle s) > 0 \<and> length (queue s) > 0")
    case False
    with "1.prems" show ?thesis by (subst dispatch.simps) auto
  next
    case True
    then obtain w rest where i: "idle s = w # rest" by (cases "idle s") auto
    let ?s = "s\<lparr>idle := tl (idle s), queue := tl (queue s),
                 stats_inProgress := stats_inProgress s + 1,
                 holding := (holding s)(hd (idle s) := holding s (hd (idle s)) + 1)\<rparr>"
    have "pool_inv ?s"
      using inv_dispatch_step [OF "1.prems"(1) i, of "tl (queue s)"] i by simp
    moreover have "pool_acc ?s"
      using acc_dispatch_step [OF "1.prems" i, of "tl (queue s)"] i by simp
    ultimately have "pool_acc (dispatch ?s)" using "1.IH" [OF True refl refl] by simp
    then show ?thesis using True by (subst dispatch.simps) (simp add: Let_def)
  qed
qed

lemma acc_checkDone: "pool_acc s \<Longrightarrow> pool_acc (checkDone s)"
  by (simp add: pool_acc_def busy_def checkDone_def split: option.splits)

lemma acc_cong:
  assumes "pool_acc s" and "stats_inProgress t = stats_inProgress s" and "alive t = alive s"
    and "holding t = holding s" and "idle t = idle s" and "starting t = starting s"
  shows "pool_acc t"
  using assms by (simp add: pool_acc_def busy_def)

lemma acc_enqueue: "pool_inv s \<Longrightarrow> pool_acc s \<Longrightarrow> pool_acc (enqueue novels s)"
proof -
  assume i: "pool_inv s" and a: "pool_acc s"
  let ?x = "s\<lparr>queue := queue s @ novels, totalQueued := length (queue s @ novels)\<rparr>"
  have "pool_inv ?x" using i by (simp add: pool_inv_def)
  moreover have "pool_acc ?x" using a by (rule acc_cong) simp_all
  ultimately show ?thesis unfolding enqueue_def by (rule acc_dispatch)
qed

lemma acc_waitUntilDone: "pool_acc s \<Longrightarrow> pool_acc (waitUntilDone s)"
  by (erule acc_cong) (simp_all add: waitUntilDone_def)

lemma acc_release:
  assumes i: "pool_inv s" and a: "pool_acc s" and m: "w \<in> busy s"
    and t: "stats_inProgress t = stats_inProgress s - 1" "busy t = busy s - {w}"
      "\<forall>x \<in> set (idle t @ starting t). alive t x"
  shows "pool_acc t"
proof -
  have "card (busy s - {w}) = card (busy s) - 1"
    using busy_finite [OF i] m by simp
  moreover have "card (busy s) > 0" using busy_finite [OF i] m by (auto simp: card_gt_0_iff)
  ultimately have c: "stats_inProgress t = int (card (busy t))"
    using a t(1,2) by (simp add: pool_acc_def)
  with t(3) show ?thesis by (simp add: pool_acc_def)
qed

lemma acc_result:
  assumes i: "pool_inv s" and a: "pool_acc s" and w: "alive s w" "holding s w > 0"
  shows "pool_acc (handleMessage w (ResultMsg res) s)"
proof -
  let ?x = "s\<lparr>stats_inProgress := stats_inProgress s - 1,
               holding := (holding s)(w := holding s w - 1), idle := idle s @ [w]\<rparr>"
  from i have "holding s w \<le> 1" by (simp add: pool_inv_def)
  with w have h: "holding s w = 1" by simp
  have 1: "pool_inv ?x" using i w(2) by (rule inv_release)
  have m: "w \<in> busy s" using w by (simp add: busy_def)
  have b: "busy ?x = busy s - {w}" using h by (auto simp: busy_def)
  have l: "\<forall>x \<in> set (idle ?x @ starting ?x). alive ?x x"
    using a w(1) by (auto simp: pool_acc_def)
  have 2: "pool_acc ?x" using i a m _ b l by (rule acc_release) simp
  let ?s1 = "s\<lparr>stats_inProgress := stats_inProgress s - 1,
                holding := (holding s)(w := holding s w - 1)\<rparr>"
  have 3: "pool_inv (?s1\<lparr>idle := idle ?s1 @ [w]\<rparr>)" using 1 by simp
  have 4: "pool_acc (?s1\<lparr>idle := idle ?s1 @ [w]\<rparr>)" using 2 by simp
  have c: "pool_inv (t\<lparr>idle := idle t @ [w]\<rparr>) \<Longrightarrow> pool_acc (t\<lparr>idle := idle t @ [w]\<rparr>) \<Longrightarrow>
      pool_acc (checkDone (dispatch (t\<lparr>stats_succeeded := n, idle := idle t @ [w]\<rparr>)))
      \<and> pool_acc (checkDone (dispatch (t\<lparr>stats_skipped := n, idle := idle t @ [w]\<rparr>)))
      \<and> pool_acc (checkDone (dispatch (t\<lparr>stats_failed := n, idle := idle t @ [w]\<rparr>)))" for t n
    by (intro conjI acc_checkDone acc_dispatch) (simp_all add: pool_inv_def pool_acc_def busy_def)
  show ?thesis
    unfolding handleMessage_def using c [OF 3 4] by (simp add: Let_def)
qed

lemma handleError_live:
  assumes "pool_inv s" and "alive s w"
  shows "handleError w s =
      s\<lparr>stats_inProgress := stats_inProgress s - 1, stats_failed := stats_failed s + 1,
        alive := (alive s)(w := False, spawned s := True),
        spawned := spawned s + 1, ident := (ident s)(spawned s := ident s w),
        workers := (workers s)[nat (indexOf (workers s) w) := spawned s],
        starting := starting s @ [spawned s]\<rparr>"
proof -
  from assms have m: "w \<in> set (workers s)" by (simp add: pool_inv_def)
  from indexOf_found [OF m] have "indexOf (workers s) w \<noteq> - 1" by auto
  then show ?thesis by (simp add: handleError_def Let_def)
qed

lemma acc_fault:
  assumes i: "pool_inv s" and a: "pool_acc s" and w: "alive s w" "holding s w > 0"
  shows "pool_acc (handleError w s)"
proof -
  let ?t = "handleError w s"
  note e = handleError_live [OF i w(1)]
  have fresh: "holding s (spawned s) = 0" using i unfolding pool_inv_def by simp
  have m: "w \<in> busy s" using w by (simp add: busy_def)
  have n: "stats_inProgress ?t = stats_inProgress s - 1" unfolding e by simp
  have b: "busy ?t = busy s - {w}"
    unfolding e using fresh by (auto simp: busy_def)
  have nw: "\<forall>x \<in> set (idle s @ starting s). x \<noteq> w"
    using i w(2) unfolding pool_inv_def by auto
  have l: "\<forall>x \<in> set (idle ?t @ starting ?t). alive ?t x"
    unfolding e using a nw by (auto simp: pool_acc_def)
  show ?thesis using i a m n b l by (rule acc_release)
qed

lemma acc_ready:
  assumes i: "pool_inv s" and a: "pool_acc s" and w: "alive s w" "w \<in> set (starting s)"
  shows "pool_acc (onReady w s)"
proof -
  let ?x = "s\<lparr>starting := removeAll w (starting s), idle := idle s @ [w]\<rparr>"
  have l: "length (removeAll w (starting s)) < length (starting s)"
    using w(2) by (simp add: length_removeAll_less)
  have 1: "pool_inv ?x"
    using i w(2) l unfolding pool_inv_def by (auto simp: distinct_removeAll)
  have 2: "pool_acc ?x"
    using a w(1) by (auto simp: pool_acc_def busy_def)
  show ?thesis unfolding onReady_def using 1 2 by (intro acc_checkDone acc_dispatch)
qed

lemma fits_enabled: "fits s e \<Longrightarrow> enabled s e"
  by (cases e) simp_all

lemma acc_handle: "pool_inv s \<Longrightarrow> pool_acc s \<Longrightarrow> fits s e \<Longrightarrow> pool_acc (handle e s)"
proof (cases e)
  case (Message w msg)
  assume "pool_inv s" "pool_acc s" "fits s e"
  with Message show ?thesis
    by (cases msg) (simp_all add: acc_result, simp_all add: handleMessage_def)
qed (simp_all add: acc_enqueue acc_waitUntilDone acc_fault acc_ready)

lemma acc_run: "pool_inv s \<Longrightarrow> pool_acc s \<Longrightarrow> orderly es s \<Longrightarrow> run es s = Some t \<Longrightarrow> pool_acc t"
proof (induction es arbitrary: s)
  case Nil
  then show ?case by simp
next
  case (Cons e es)
  from Cons.prems(3) have f: "fits s e" and o: "orderly es (handle e s)" by simp_all
  from Cons.prems(4) have en: "enabled s e" and r: "run es (handle e s) = Some t"
    by (auto split: if_splits)
  from Cons.prems(1) en have 1: "pool_inv (handle e s)" by (rule inv_handle)
  from Cons.prems(1,2) f have 2: "pool_acc (handle e s)" by (rule acc_handle)
  from 1 2 o r show ?case by (rule Cons.IH)
qed

lemma run_inFlight:
  assumes "run es (start n) = Some s" and "orderly es (start n)"
  shows "stats_inProgress s = int (inFlight s)"
proof -
  have i: "pool_inv s" using inv_start assms(1) by (rule inv_run)
  have "pool_acc s" using inv_start acc_start assms(2,1) by (rule acc_run)
  then show ?thesis using inFlight_card [OF i] by (simp add: pool_acc_def)
qed

lemma checkDone_resolves:
  "(if stats_inProgress s = 0 \<and> queue s = []
    then resolveAllDone (checkDone s) = None
         \<and> resolved (checkDone s) = resolved s @ (case resolveAllDone s of None \<Rightarrow> [] | Some p \<Rightarrow> [p])
    else resolveAllDone (checkDone s) = resolveAllDone s \<and> resolved (checkDone s) = resolved s)"
  by (simp add: checkDone_def split: option.splits)

lemma after_checkDone:
  assumes "resolveAllDone t = resolveAllDone s" and "resolved t = resolved s"
  shows "(if stats_inProgress (checkDone t) = 0 \<and> queue (checkDone t) = []
    then resolveAllDone (checkDone t) = None
         \<and> resolved (checkDone t) = resolved s @ (case resolveAllDone s of None \<Rightarrow> [] | Some p \<Rightarrow> [p])
    else resolveAllDone (checkDone t) = resolveAllDone s \<and> resolved (checkDone t) = resolved s)"
  using checkDone_resolves [of t] assms by (simp add: checkDone_frame)

lemma step_checks:
  assumes "checks e"
  shows "(if stats_inProgress (handle e s) = 0 \<and> queue (handle e s) = []
          then resolveAllDone (handle e s) = None
               \<and> resolved (handle e s) = resolved s @ (case resolveAllDone s of None \<Rightarrow> [] | Some p \<Rightarrow> [p])
          else resolveAllDone (handle e s) = resolveAllDone s \<and> resolved (handle e s) = resolved s)"
proof -
  have r: "(if stats_inProgress (onReady w s) = 0 \<and> queue (onReady w s) = []
             then resolveAllDone (onReady w s) = None
                  \<and> resolved (onReady w s) = resolved s @ (case resolveAllDone s of None \<Rightarrow> [] | Some p \<Rightarrow> [p])
             else resolveAllDone (onReady w s) = resolveAllDone s \<and> resolved (onReady w s) = resolved s)" for w
    unfolding onReady_def by (rule after_checkDone) (simp_all add: dispatch_frame)
  have m: "(if stats_inProgress (handleMessage w (ResultMsg res) s) = 0 \<and> queue (handleMessage w (ResultMsg res) s) = []
             then resolveAllDone (handleMessage w (ResultMsg res) s) = None
                  \<and> resolved (handleMessage w (ResultMsg res) s) = resolved s @ (case resolveAllDone s of None \<Rightarrow> [] | Some p \<Rightarrow> [p])
             else resolveAllDone (handleMessage w (ResultMsg res) s) = resolveAllDone s
                  \<and> resolved (handleMessage w (ResultMsg res) s) = resolved s)" for w res
    unfolding handleMessage_def message.case Let_def
    by (rule after_checkDone) (simp_all add: dispatch_frame)
  show ?thesis
  proof (cases e)
    case (Ready w)
    show ?thesis unfolding Ready handle.simps by (rule r)
  next
    case (Message w msg)
    with assms obtain res where "msg = ResultMsg res" by (cases msg) simp_all
    with Message show ?thesis using m [of w res] by simp
  qed (use assms in simp_all)
qed

lemma step_other:
  assumes "\<not> checks e" and "e \<noteq> WaitUntilDone"
  shows "resolveAllDone (handle e s) = resolveAllDone s \<and> resolved (handle e s) = resolved s"
proof (cases e)
  case (Message w msg)
  with assms show ?thesis by (cases msg) (simp_all add: handleMessage_def)
qed (use assms in \<open>simp_all add: enqueue_def dispatch_frame handleError_def Let_def\<close>)

lemma resolved_handle: "p \<in> set (resolved s) \<Longrightarrow> p \<in> set (resolved (handle e s))"
proof (cases "checks e")
  case True
  assume "p \<in> set (resolved s)"
  then show ?thesis using step_checks [OF True, of s] by (auto split: if_splits)
next
  case False
  assume p: "p \<in> set (resolved s)"
  show ?thesis
  proof (cases "e = WaitUntilDone")
    case True
    with p show ?thesis by (simp add: waitUntilDone_def)
  next
    case False
    with \<open>\<not> checks e\<close> p show ?thesis by (simp add: step_other)
  qed
qed

lemma resolved_run: "p \<in> set (resolved s) \<Longrightarrow> run es s = Some t \<Longrightarrow> p \<in> set (resolved t)"
proof (induction es arbitrary: s)
  case Nil
  then show ?case by simp
next
  case (Cons e es)
  from Cons.prems(2) have r: "run es (handle e s) = Some t" by (auto split: if_splits)
  from Cons.prems(1) have "p \<in> set (resolved (handle e s))" by (rule resolved_handle)
  then show ?case using r by (rule Cons.IH)
qed

lemma pending_run:
  "resolveAllDone u = Some p \<Longrightarrow> p \<notin> set (resolved u) \<Longrightarrow> WaitUntilDone \<notin> set es \<Longrightarrow>
   run es u = Some t \<Longrightarrow> (p \<in> set (resolved t)) = completed es u"
proof (induction es arbitrary: u)
  case Nil
  then show ?case by simp
next
  case (Cons e es)
  from Cons.prems(4) have r: "run es (handle e u) = Some t" by (auto split: if_splits)
  from Cons.prems(3) have ne: "e \<noteq> WaitUntilDone" and nw: "WaitUntilDone \<notin> set es" by auto
  show ?case
  proof (cases "checks e \<and> stats_inProgress (handle e u) = 0 \<and> queue (handle e u) = []")
    case True
    then have "resolved (handle e u) = resolved u @ [p]"
      using step_checks [of e u] Cons.prems(1) by simp
    then have "p \<in> set (resolved (handle e u))" by simp
    then have "p \<in> set (resolved t)" using r by (rule resolved_run)
    with True show ?thesis by simp
  next
    case False
    have f: "resolveAllDone (handle e u) = resolveAllDone u \<and> resolved (handle e u) = resolved u"
    proof (cases "checks e")
      case True
      with False show ?thesis using step_checks [OF True, of u] by auto
    next
      case False
      then show ?thesis using ne by (rule step_other)
    qed
    have "(p \<in> set (resolved t)) = completed es (handle e u)"
      using Cons.prems(1,2) f nw r by (intro Cons.IH) simp_all
    with False show ?thesis by auto
  qed
qed

text \<open>
  C6, amended. Take a pool reached by an orderly run, a call of \<^verbatim>\<open>waitUntilDone\<close> in it,
  and an orderly run that follows the call and holds no further call of \<^verbatim>\<open>waitUntilDone\<close>.
  If the queue is empty and nothing is in flight at the call, the promise of the call is
  resolved at once. Otherwise the promise of the call is resolved exactly when one of the
  completion checks that follow, at the end of the handling of a result or of a
  replacement's ready message, finds the queue empty and the in-flight count zero;
  handling a fault checks nothing, so a promise whose last job ends in a fault waits for
  the replacement's ready message. The promise was not resolved before the call, no
  promise is resolved twice, and the in-flight count is the number of live Workers that
  hold a job, before the call and at the end.
\<close>

theorem waitUntilDone_resolution:
  assumes "run es (start n) = Some s" and "orderly es (start n)"
    and "run es' (waitUntilDone s) = Some t" and "orderly es' (waitUntilDone s)"
    and "WaitUntilDone \<notin> set es'"
  shows "(stats_inProgress s = 0 \<and> queue s = [] \<longrightarrow>
            resolved (waitUntilDone s) = resolved s @ [promises s] \<and> promises s \<in> set (resolved t))
       \<and> (\<not> (stats_inProgress s = 0 \<and> queue s = []) \<longrightarrow>
            resolved (waitUntilDone s) = resolved s
            \<and> (promises s \<in> set (resolved t)) = completed es' (waitUntilDone s))
       \<and> promises s \<notin> set (resolved s)
       \<and> distinct (resolved t)
       \<and> stats_inProgress s = int (inFlight s)
       \<and> stats_inProgress t = int (inFlight t)"
proof -
  have i: "pool_inv s" using inv_start assms(1) by (rule inv_run)
  then have iw: "pool_inv (waitUntilDone s)" by (rule inv_waitUntilDone)
  then have it: "pool_inv t" using assms(3) by (rule inv_run)
  have a: "pool_acc s" using inv_start acc_start assms(2,1) by (rule acc_run)
  then have "pool_acc (waitUntilDone s)" by (rule acc_waitUntilDone)
  with iw have at: "pool_acc t" using assms(4,3) by (rule acc_run)
  from i have fresh: "promises s \<notin> set (resolved s)" by (auto simp: pool_inv_def)
  from it have d: "distinct (resolved t)" by (simp add: pool_inv_def)
  have c1: "stats_inProgress s = int (inFlight s)"
    using a inFlight_card [OF i] by (simp add: pool_acc_def)
  have c2: "stats_inProgress t = int (inFlight t)"
    using at inFlight_card [OF it] by (simp add: pool_acc_def)
  have imm: "stats_inProgress s = 0 \<and> queue s = [] \<longrightarrow>
            resolved (waitUntilDone s) = resolved s @ [promises s] \<and> promises s \<in> set (resolved t)"
  proof
    assume z: "stats_inProgress s = 0 \<and> queue s = []"
    then have e: "resolved (waitUntilDone s) = resolved s @ [promises s]"
      by (simp add: waitUntilDone_def)
    then have "promises s \<in> set (resolved (waitUntilDone s))" by simp
    then have "promises s \<in> set (resolved t)" using assms(3) by (rule resolved_run)
    with e show "resolved (waitUntilDone s) = resolved s @ [promises s] \<and> promises s \<in> set (resolved t)"
      by simp
  qed
  have pen: "\<not> (stats_inProgress s = 0 \<and> queue s = []) \<longrightarrow>
            resolved (waitUntilDone s) = resolved s
            \<and> (promises s \<in> set (resolved t)) = completed es' (waitUntilDone s)"
  proof
    assume z: "\<not> (stats_inProgress s = 0 \<and> queue s = [])"
    then have e: "resolved (waitUntilDone s) = resolved s"
      "resolveAllDone (waitUntilDone s) = Some (promises s)"
      by (auto simp: waitUntilDone_def)
    from fresh e(1) have "promises s \<notin> set (resolved (waitUntilDone s))" by simp
    with e(2) have "(promises s \<in> set (resolved t)) = completed es' (waitUntilDone s)"
      using assms(5,3) by (rule pending_run)
    with e(1) show "resolved (waitUntilDone s) = resolved s
            \<and> (promises s \<in> set (resolved t)) = completed es' (waitUntilDone s)" by simp
  qed
  show ?thesis by (intro conjI) (rule imm pen fresh d c1 c2)+
qed

theorem waitUntilDone_resolution_witness:
  "(\<exists>t. run [] (waitUntilDone (start 1)) = Some t \<and> resolved t = [0])
   \<and> (\<exists>s t. run [Enqueue [novelA]] (start 1) = Some s \<and> orderly [Enqueue [novelA]] (start 1)
          \<and> run [Fault 0, Ready 1] (waitUntilDone s) = Some t
          \<and> orderly [Fault 0, Ready 1] (waitUntilDone s)
          \<and> stats_inProgress s = 1 \<and> inFlight s = 1 \<and> promises s = 0
          \<and> \<not> completed [Fault 0] (waitUntilDone s)
          \<and> completed [Fault 0, Ready 1] (waitUntilDone s)
          \<and> 0 \<in> set (resolved t) \<and> inFlight t = 0)"
proof -
  have 0: "run [] (start 1) = Some (start 1)" "orderly [] (start 1)"
    "run [] (waitUntilDone (start 1)) = Some (waitUntilDone (start 1))"
    "orderly [] (waitUntilDone (start 1))" "WaitUntilDone \<notin> set []"
    by simp_all
  have z: "stats_inProgress (start 1) = 0 \<and> queue (start 1) = []"
    "resolved (start 1) = []" "promises (start 1) = 0"
    by (simp_all add: start_def)
  from waitUntilDone_resolution [OF 0, THEN conjunct1, THEN mp, OF z(1)] z
  have a: "\<exists>t. run [] (waitUntilDone (start 1)) = Some t \<and> resolved t = [0]" by simp
  obtain s t where s: "run [Enqueue [novelA]] (start 1) = Some s"
    and os: "orderly [Enqueue [novelA]] (start 1)"
    and t: "run [Fault 0, Ready 1] (waitUntilDone s) = Some t"
    and ot: "orderly [Fault 0, Ready 1] (waitUntilDone s)"
    and v: "stats_inProgress s = 1" "inFlight s = 1" "promises s = 0"
      "\<not> completed [Fault 0] (waitUntilDone s)" "completed [Fault 0, Ready 1] (waitUntilDone s)"
      "inFlight t = 0"
    by (simp add: start_def enqueue_def waitUntilDone_def handleError_def onReady_def checkDone_def
      novelA_def dispatch_go dispatch_stop Let_def inFlight_def)
  have nw: "WaitUntilDone \<notin> set [Fault 0, Ready 1]" by simp
  note p = waitUntilDone_resolution [OF s os t ot nw, THEN conjunct2, THEN conjunct1]
  from p v(1,3,5) have "0 \<in> set (resolved t)" by simp
  with a s os t ot v show ?thesis by blast
qed

section \<open>Properties of the Concurrency Limiter\<close>

declare admit.simps [simp del]

lemma admit_stop: "cap l \<le> length (active l) \<or> queued l = [] \<Longrightarrow> admit l = l"
  by (subst admit.simps) auto

lemma admit_go:
  "length (active l) < cap l \<Longrightarrow> queued l = q # qs \<Longrightarrow>
   admit l = admit (l\<lparr>active := active l @ [q], queued := qs\<rparr>)"
  by (subst admit.simps) simp

lemma admit_cap: "cap (admit l) = cap l"
proof (induction l rule: admit.induct)
  case (1 l)
  show ?case
  proof (cases "length (active l) < cap l \<and> queued l \<noteq> []")
    case True
    then show ?thesis using "1.IH" by (subst admit.simps) simp
  next
    case False
    then show ?thesis by (subst admit.simps) auto
  qed
qed

lemma admit_bound: "length (active l) \<le> cap l \<Longrightarrow> length (active (admit l)) \<le> cap l"
proof (induction l rule: admit.induct)
  case (1 l)
  show ?case
  proof (cases "length (active l) < cap l \<and> queued l \<noteq> []")
    case True
    then have "length (active (admit (l\<lparr>active := active l @ [hd (queued l)], queued := tl (queued l)\<rparr>))) \<le> cap l"
      using "1.IH" by simp
    then show ?thesis using True by (subst admit.simps) simp
  next
    case False
    then show ?thesis using "1.prems" by (subst admit.simps) auto
  qed
qed

lemma admit_full: "queued (admit l) \<noteq> [] \<Longrightarrow> cap l \<le> length (active (admit l))"
proof (induction l rule: admit.induct)
  case (1 l)
  show ?case
  proof (cases "length (active l) < cap l \<and> queued l \<noteq> []")
    case True
    let ?l = "l\<lparr>active := active l @ [hd (queued l)], queued := tl (queued l)\<rparr>"
    have e: "admit l = admit ?l" using True by (subst admit.simps) simp
    from "1.prems" have "queued (admit ?l) \<noteq> []" unfolding e .
    with True have "cap ?l \<le> length (active (admit ?l))" by (intro "1.IH") simp_all
    then show ?thesis unfolding e by simp
  next
    case False
    then have e: "admit l = l" by (subst admit.simps) auto
    from "1.prems" False show ?thesis unfolding e by auto
  qed
qed

lemma admit_tasks: "set (active (admit l) @ queued (admit l)) = set (active l @ queued l)"
proof (induction l rule: admit.induct)
  case (1 l)
  show ?case
  proof (cases "length (active l) < cap l \<and> queued l \<noteq> []")
    case True
    let ?l = "l\<lparr>active := active l @ [hd (queued l)], queued := tl (queued l)\<rparr>"
    have e: "admit l = admit ?l" using True by (subst admit.simps) simp
    from True obtain q qs where q: "queued l = q # qs" by (cases "queued l") auto
    have "set (active (admit ?l) @ queued (admit ?l)) = set (active ?l @ queued ?l)"
      using True by (intro "1.IH") simp_all
    then show ?thesis unfolding e using q by auto
  next
    case False
    then have e: "admit l = l" by (subst admit.simps) auto
    show ?thesis unfolding e ..
  qed
qed

lemma sound_admit: "length (active l) \<le> cap l \<Longrightarrow> sound (admit l)"
  unfolding sound_def using admit_bound [of l] admit_full [of l] by (auto simp: admit_cap)

lemma sound_submit: "sound l \<Longrightarrow> sound (submit t l)"
  unfolding submit_def by (rule sound_admit) (simp add: sound_def)

lemma sound_release: "sound l \<Longrightarrow> sound (release t l)"
proof -
  assume "sound l"
  then have "length (active l) \<le> cap l" by (simp add: sound_def)
  moreover have "length (remove1 t (active l)) \<le> length (active l)"
    by (simp add: length_remove1)
  ultimately show ?thesis unfolding release_def by (intro sound_admit) simp
qed

lemma submit_cap: "cap (submit t l) = cap l"
  by (simp add: submit_def admit_cap)

lemma release_cap: "cap (release t l) = cap l"
  by (simp add: release_def admit_cap)

lemma submit_tasks: "set (active (submit t l) @ queued (submit t l)) = insert t (set (active l @ queued l))"
  unfolding submit_def admit_tasks by simp

lemma release_tasks: "set (active (release t l) @ queued (release t l)) \<subseteq> set (active l @ queued l)"
  unfolding release_def admit_tasks using set_remove1_subset [of t "active l"] by auto

lemma submits:
  "sound l \<Longrightarrow>
   sound (foldl (\<lambda>l i. submit (f i) l) l xs)
   \<and> cap (foldl (\<lambda>l i. submit (f i) l) l xs) = cap l
   \<and> set (active (foldl (\<lambda>l i. submit (f i) l) l xs) @ queued (foldl (\<lambda>l i. submit (f i) l) l xs))
       = f ` set xs \<union> set (active l @ queued l)"
proof (induction xs arbitrary: l)
  case Nil
  then show ?case by simp
next
  case (Cons x xs)
  from Cons.prems have "sound (submit (f x) l)" by (rule sound_submit)
  from Cons.IH [OF this] show ?case
    by (simp add: submit_cap submit_tasks del: set_append)
qed

lemma inv_nextPass: "fetching_inv K s \<Longrightarrow> fetching_inv K (nextPass s)"
proof (cases "active (limit s) = [] \<and> queued (limit s) = [] \<and> \<not> finished s \<and> passNo s + 1 \<le> 2
    \<and> length (failedIndices (chapters (array s))) \<noteq> 0")
  case False
  assume "fetching_inv K s"
  with False show ?thesis by (auto simp: nextPass_def fetching_inv_def Let_def)
next
  case True
  assume i: "fetching_inv K s"
  let ?l = "foldl (\<lambda>l i. submit (passNo s + 1, i) l) (limit s) (failedIndices (chapters (array s)))"
  have e: "nextPass s = s\<lparr>passNo := passNo s + 1, limit := ?l\<rparr>"
    using True by (simp add: nextPass_def Let_def)
  from i have "sound (limit s)" by (simp add: fetching_inv_def)
  note f = submits [OF this, of "\<lambda>i. (passNo s + 1, i)" "failedIndices (chapters (array s))"]
  have 1: "cap ?l = K" using f i by (simp add: fetching_inv_def)
  have 2: "sound ?l" using f by simp
  have 3: "\<forall>t \<in> set (active ?l @ queued ?l). fst t = passNo s + 1"
    using f True by (auto simp del: set_append)
  show ?thesis unfolding e fetching_inv_def using 1 2 3 True by simp
qed

lemma inv_startFetching: "startFetching c nov = Some s \<Longrightarrow> \<exists>K. c = Num (int K) \<and> 1 \<le> K \<and> fetching_inv K s"
proof -
  assume a: "startFetching c nov = Some s"
  then obtain l where l: "newLimiter c = Some l" by (auto simp: startFetching_def split: option.splits)
  then obtain k where k: "c = Num k" "1 \<le> k" "l = \<lparr>cap = nat k, queued = [], active = []\<rparr>"
    by (auto simp: newLimiter_def split: number.splits if_splits)
  let ?n = "length (novel_chapters nov)"
  let ?l = "foldl (\<lambda>l i. submit (0, int i) l) l [0..<?n]"
  let ?s = "\<lparr>limit = ?l, array = \<lparr>chapters = replicate ?n Hole, calls = []\<rparr>, passNo = 0, finished = False\<rparr>"
  have s: "s = nextPass ?s" using a l by (simp add: startFetching_def)
  have "sound l" using k by (simp add: sound_def)
  note f = submits [OF this, of "\<lambda>i. (0, int i)" "[0..<?n]"]
  have "fetching_inv (nat k) ?s"
    unfolding fetching_inv_def using f k(3) by (auto simp del: set_append)
  then have "fetching_inv (nat k) s" unfolding s by (rule inv_nextPass)
  moreover have "c = Num (int (nat k))" "1 \<le> nat k" using k by simp_all
  ultimately show ?thesis by blast
qed

lemma inv_settle: "fetching_inv K s \<Longrightarrow> settle fch nov t s = Some s' \<Longrightarrow> fetching_inv K s'"
proof -
  assume i: "fetching_inv K s" and a: "settle fch nov t s = Some s'"
  let ?s = "s\<lparr>array := taskEffect fch nov t (array s), limit := release t (limit s)\<rparr>"
  from a have s': "s' = nextPass ?s" by (auto simp: settle_def split: if_splits)
  have "fetching_inv K ?s"
    unfolding fetching_inv_def using i release_tasks [of t "limit s"]
    by (auto simp: fetching_inv_def release_cap sound_release simp del: set_append)
  then show ?thesis unfolding s' by (rule inv_nextPass)
qed

lemma inv_settles: "fetching_inv K s \<Longrightarrow> settles fch nov ts s = Some s' \<Longrightarrow> fetching_inv K s'"
proof (induction ts arbitrary: s)
  case Nil
  then show ?case by simp
next
  case (Cons t ts)
  from Cons.prems(2) obtain u where u: "settle fch nov t s = Some u" "settles fch nov ts u = Some s'"
    by (auto split: option.splits)
  from Cons.prems(1) u(1) have "fetching_inv K u" by (rule inv_settle)
  then show ?case using u(2) by (rule Cons.IH)
qed

subsection \<open>A sample fetching phase\<close>

text \<open>
  The sample Job with concurrency 2: the tasks settle out of order, and the array at the
  end is the one \<open>retryLoop\<close> computes.
\<close>

lemma fetching_start:
  "startFetching (Num 2) demoNovel = Some
    \<lparr>limit = \<lparr>cap = 2, queued = [(0, 2)], active = [(0, 0), (0, 1)]\<rparr>,
     array = \<lparr>chapters = [Hole, Hole, Hole], calls = []\<rparr>, passNo = 0, finished = False\<rparr>"
  by (simp add: startFetching_def newLimiter_def submit_def admit_go admit_stop nextPass_def
      demoNovel_def upt_conv_Cons)

lemma fetching_settle1:
  "settle demoFetch demoNovel (0, 1)
    \<lparr>limit = \<lparr>cap = 2, queued = [(0, 2)], active = [(0, 0), (0, 1)]\<rparr>,
     array = \<lparr>chapters = [Hole, Hole, Hole], calls = []\<rparr>, passNo = 0, finished = False\<rparr>
   = Some
    \<lparr>limit = \<lparr>cap = 2, queued = [], active = [(0, 0), (0, 2)]\<rparr>,
     array = \<lparr>chapters = [Hole, Null, Hole], calls = [(0, 1)]\<rparr>, passNo = 0, finished = False\<rparr>"
  by (simp add: settle_def release_def submit_def admit_go admit_stop nextPass_def taskEffect_def
      runTask_def retryTask_def fetchTask_def failedIndices_def demoNovel_def demoFetch_def js_def
      trim_def isWhiteSpace_def enumerate_eq_zip upt_conv_Cons)

lemma fetching_settle2:
  "settle demoFetch demoNovel (0, 0)
    \<lparr>limit = \<lparr>cap = 2, queued = [], active = [(0, 0), (0, 2)]\<rparr>,
     array = \<lparr>chapters = [Hole, Null, Hole], calls = [(0, 1)]\<rparr>, passNo = 0, finished = False\<rparr>
   = Some
    \<lparr>limit = \<lparr>cap = 2, queued = [], active = [(0, 2)]\<rparr>,
     array = \<lparr>chapters = [Filled \<lparr>ch_title = js ''one'', ch_content = js ''<p>a</p>''\<rparr>, Null, Hole], calls = [(0, 1), (0, 0)]\<rparr>, passNo = 0, finished = False\<rparr>"
  by (simp add: settle_def release_def submit_def admit_go admit_stop nextPass_def taskEffect_def
      runTask_def retryTask_def fetchTask_def failedIndices_def demoNovel_def demoFetch_def js_def
      trim_def isWhiteSpace_def enumerate_eq_zip upt_conv_Cons)

lemma fetching_settle3:
  "settle demoFetch demoNovel (0, 2)
    \<lparr>limit = \<lparr>cap = 2, queued = [], active = [(0, 2)]\<rparr>,
     array = \<lparr>chapters = [Filled \<lparr>ch_title = js ''one'', ch_content = js ''<p>a</p>''\<rparr>, Null, Hole], calls = [(0, 1), (0, 0)]\<rparr>, passNo = 0, finished = False\<rparr>
   = Some
    \<lparr>limit = \<lparr>cap = 2, queued = [], active = [(1, 1), (1, 2)]\<rparr>,
     array = \<lparr>chapters = [Filled \<lparr>ch_title = js ''one'', ch_content = js ''<p>a</p>''\<rparr>, Null, Null], calls = [(0, 1), (0, 0), (0, 2)]\<rparr>, passNo = 1, finished = False\<rparr>"
  by (simp add: settle_def release_def submit_def admit_go admit_stop nextPass_def taskEffect_def
      runTask_def retryTask_def fetchTask_def failedIndices_def demoNovel_def demoFetch_def js_def
      trim_def isWhiteSpace_def enumerate_eq_zip upt_conv_Cons)

lemma fetching_settle4:
  "settle demoFetch demoNovel (1, 2)
    \<lparr>limit = \<lparr>cap = 2, queued = [], active = [(1, 1), (1, 2)]\<rparr>,
     array = \<lparr>chapters = [Filled \<lparr>ch_title = js ''one'', ch_content = js ''<p>a</p>''\<rparr>, Null, Null], calls = [(0, 1), (0, 0), (0, 2)]\<rparr>, passNo = 1, finished = False\<rparr>
   = Some
    \<lparr>limit = \<lparr>cap = 2, queued = [], active = [(1, 1)]\<rparr>,
     array = \<lparr>chapters = [Filled \<lparr>ch_title = js ''one'', ch_content = js ''<p>a</p>''\<rparr>, Null, Filled \<lparr>ch_title = js ''t'', ch_content = js ''<p>c</p>''\<rparr>], calls = [(0, 1), (0, 0), (0, 2), (1, 2)]\<rparr>, passNo = 1, finished = False\<rparr>"
  by (simp add: settle_def release_def submit_def admit_go admit_stop nextPass_def taskEffect_def
      runTask_def retryTask_def fetchTask_def failedIndices_def demoNovel_def demoFetch_def js_def
      trim_def isWhiteSpace_def enumerate_eq_zip upt_conv_Cons)

lemma fetching_settle5:
  "settle demoFetch demoNovel (1, 1)
    \<lparr>limit = \<lparr>cap = 2, queued = [], active = [(1, 1)]\<rparr>,
     array = \<lparr>chapters = [Filled \<lparr>ch_title = js ''one'', ch_content = js ''<p>a</p>''\<rparr>, Null, Filled \<lparr>ch_title = js ''t'', ch_content = js ''<p>c</p>''\<rparr>], calls = [(0, 1), (0, 0), (0, 2), (1, 2)]\<rparr>, passNo = 1, finished = False\<rparr>
   = Some
    \<lparr>limit = \<lparr>cap = 2, queued = [], active = [(2, 1)]\<rparr>,
     array = \<lparr>chapters = [Filled \<lparr>ch_title = js ''one'', ch_content = js ''<p>a</p>''\<rparr>, Null, Filled \<lparr>ch_title = js ''t'', ch_content = js ''<p>c</p>''\<rparr>], calls = [(0, 1), (0, 0), (0, 2), (1, 2), (1, 1)]\<rparr>, passNo = 2, finished = False\<rparr>"
  by (simp add: settle_def release_def submit_def admit_go admit_stop nextPass_def taskEffect_def
      runTask_def retryTask_def fetchTask_def failedIndices_def demoNovel_def demoFetch_def js_def
      trim_def isWhiteSpace_def enumerate_eq_zip upt_conv_Cons)

lemma fetching_settle6:
  "settle demoFetch demoNovel (2, 1)
    \<lparr>limit = \<lparr>cap = 2, queued = [], active = [(2, 1)]\<rparr>,
     array = \<lparr>chapters = [Filled \<lparr>ch_title = js ''one'', ch_content = js ''<p>a</p>''\<rparr>, Null, Filled \<lparr>ch_title = js ''t'', ch_content = js ''<p>c</p>''\<rparr>], calls = [(0, 1), (0, 0), (0, 2), (1, 2), (1, 1)]\<rparr>, passNo = 2, finished = False\<rparr>
   = Some
    \<lparr>limit = \<lparr>cap = 2, queued = [], active = []\<rparr>,
     array = \<lparr>chapters = [Filled \<lparr>ch_title = js ''one'', ch_content = js ''<p>a</p>''\<rparr>, Null, Filled \<lparr>ch_title = js ''t'', ch_content = js ''<p>c</p>''\<rparr>], calls = [(0, 1), (0, 0), (0, 2), (1, 2), (1, 1), (2, 1)]\<rparr>, passNo = 2, finished = True\<rparr>"
  by (simp add: settle_def release_def submit_def admit_go admit_stop nextPass_def taskEffect_def
      runTask_def retryTask_def fetchTask_def failedIndices_def demoNovel_def demoFetch_def js_def
      trim_def isWhiteSpace_def enumerate_eq_zip upt_conv_Cons)

lemma fetching_initial:
  "settles demoFetch demoNovel [(0, 1), (0, 0), (0, 2)]
    \<lparr>limit = \<lparr>cap = 2, queued = [(0, 2)], active = [(0, 0), (0, 1)]\<rparr>,
     array = \<lparr>chapters = [Hole, Hole, Hole], calls = []\<rparr>, passNo = 0, finished = False\<rparr>
   = Some
    \<lparr>limit = \<lparr>cap = 2, queued = [], active = [(1, 1), (1, 2)]\<rparr>,
     array = \<lparr>chapters = [Filled \<lparr>ch_title = js ''one'', ch_content = js ''<p>a</p>''\<rparr>, Null, Null], calls = [(0, 1), (0, 0), (0, 2)]\<rparr>, passNo = 1, finished = False\<rparr>"
  by (simp only: settles.simps fetching_settle1 fetching_settle2 fetching_settle3 option.case)

lemma fetching_retries:
  "settles demoFetch demoNovel [(1, 2), (1, 1), (2, 1)]
    \<lparr>limit = \<lparr>cap = 2, queued = [], active = [(1, 1), (1, 2)]\<rparr>,
     array = \<lparr>chapters = [Filled \<lparr>ch_title = js ''one'', ch_content = js ''<p>a</p>''\<rparr>, Null, Null], calls = [(0, 1), (0, 0), (0, 2)]\<rparr>, passNo = 1, finished = False\<rparr>
   = Some
    \<lparr>limit = \<lparr>cap = 2, queued = [], active = []\<rparr>,
     array = \<lparr>chapters = [Filled \<lparr>ch_title = js ''one'', ch_content = js ''<p>a</p>''\<rparr>, Null, Filled \<lparr>ch_title = js ''t'', ch_content = js ''<p>c</p>''\<rparr>], calls = [(0, 1), (0, 0), (0, 2), (1, 2), (1, 1), (2, 1)]\<rparr>, passNo = 2, finished = True\<rparr>"
  by (simp only: settles.simps fetching_settle4 fetching_settle5 fetching_settle6 option.case)

subsection \<open>The bound\<close>

text \<open>
  C9. The Job makes one limiter, with the configured concurrency K, which is 3 when the
  option is not given; the tasks of the initial pass and of each retry pass are all passed
  to it. At every moment of the fetching phase, whatever the order in which the tasks
  settle, at most K tasks are started and not settled; while a task is queued exactly K
  are; and the tasks in the limiter belong to the pass in progress, the initial pass or
  one of the two retry passes.
\<close>

theorem limiter_bound:
  assumes "startFetching c nov = Some s0" and "settles fch nov ts s0 = Some s"
  shows "\<exists>K. c = Num (int K) \<and> 1 \<le> K
           \<and> cap (limit s) = K
           \<and> length (active (limit s)) \<le> K
           \<and> (queued (limit s) \<noteq> [] \<longrightarrow> length (active (limit s)) = K)
           \<and> passNo s \<le> 2
           \<and> (\<forall>t \<in> set (active (limit s) @ queued (limit s)). fst t = passNo s)
           \<and> concurrencyArg parseInt None = Num 3"
proof -
  from inv_startFetching [OF assms(1)] obtain K where
    K: "c = Num (int K)" "1 \<le> K" "fetching_inv K s0" by blast
  from K(3) assms(2) have "fetching_inv K s" by (rule inv_settles)
  then have "cap (limit s) = K" "length (active (limit s)) \<le> K"
    "queued (limit s) \<noteq> [] \<longrightarrow> length (active (limit s)) = K" "passNo s \<le> 2"
    "\<forall>t \<in> set (active (limit s) @ queued (limit s)). fst t = passNo s"
    unfolding fetching_inv_def sound_def by blast+
  moreover have "concurrencyArg parseInt None = Num 3" by (simp add: concurrencyArg_def)
  ultimately show ?thesis using K(1,2) by blast
qed

theorem limiter_bound_witness:
  "\<exists>s0 s s'. startFetching (Num 2) demoNovel = Some s0
      \<and> active (limit s0) = [(0, 0), (0, 1)] \<and> queued (limit s0) = [(0, 2)]
      \<and> settles demoFetch demoNovel [(0, 1), (0, 0), (0, 2)] s0 = Some s
      \<and> passNo s = 1 \<and> active (limit s) = [(1, 1), (1, 2)] \<and> cap (limit s) = 2
      \<and> length (active (limit s)) \<le> 2
      \<and> settles demoFetch demoNovel [(1, 2), (1, 1), (2, 1)] s = Some s'
      \<and> finished s' \<and> active (limit s') = [] \<and> passNo s' = 2
      \<and> chapters (array s') = chapters (retryLoop demoFetch demoNovel 1 (initialPass demoFetch demoNovel))"
proof -
  from limiter_bound [OF fetching_start fetching_initial] obtain K where
    K: "Num 2 = Num (int K)" "length (active (limit
      \<lparr>limit = \<lparr>cap = 2, queued = [], active = [(1, 1), (1, 2)]\<rparr>,
       array = \<lparr>chapters = [Filled \<lparr>ch_title = js ''one'', ch_content = js ''<p>a</p>''\<rparr>, Null, Null], calls = [(0, 1), (0, 0), (0, 2)]\<rparr>, passNo = 1, finished = False\<rparr>)) \<le> K"
    by blast
  from K(1) have "K = 2" by simp
  with K(2) have b: "length (active (limit
      \<lparr>limit = \<lparr>cap = 2, queued = [], active = [(1, 1), (1, 2)]\<rparr>,
       array = \<lparr>chapters = [Filled \<lparr>ch_title = js ''one'', ch_content = js ''<p>a</p>''\<rparr>, Null, Null], calls = [(0, 1), (0, 0), (0, 2)]\<rparr>, passNo = 1, finished = False\<rparr>)) \<le> 2"
    by simp
  show ?thesis
    by (intro exI conjI)
      (rule fetching_start fetching_initial fetching_retries b
        | simp add: demo_retryLoop del: One_nat_def | simp)+
qed

section \<open>Properties of sanitizeFilename\<close>

lemma set_collapseWhiteSpace: "set (collapseWhiteSpace s) \<subseteq> insert 0x20 (set s)"
  by (induction s rule: collapseWhiteSpace.induct) (auto dest: set_dropWhileD)

lemma hd_collapseWhiteSpace:
  "s \<noteq> [] \<Longrightarrow> \<not> isWhiteSpace (hd s) \<Longrightarrow> collapseWhiteSpace s \<noteq> [] \<and> hd (collapseWhiteSpace s) = hd s"
  by (cases s) auto

lemma tidy_collapseWhiteSpace: "tidy (collapseWhiteSpace s)"
proof (induction s rule: collapseWhiteSpace.induct)
  case 1
  show ?case by simp
next
  case (2 c cs)
  show ?case
  proof (cases "isWhiteSpace c")
    case True
    let ?r = "dropWhile isWhiteSpace cs"
    have "collapseWhiteSpace ?r = [] \<or> \<not> isWhiteSpace (hd (collapseWhiteSpace ?r))"
    proof (cases "?r = []")
      case True
      then have "collapseWhiteSpace ?r = []" by (simp only: collapseWhiteSpace.simps)
      then show ?thesis by (rule disjI1)
    next
      case False
      then have "\<not> isWhiteSpace (hd ?r)" by (rule hd_dropWhile)
      with False show ?thesis by (simp add: hd_collapseWhiteSpace)
    qed
    with True 2 show ?thesis by simp
  next
    case False
    with 2 show ?thesis by simp
  qed
qed

lemma collapseWhiteSpace_tidy: "tidy s \<Longrightarrow> collapseWhiteSpace s = s"
proof (induction s rule: collapseWhiteSpace.induct)
  case 1
  show ?case by simp
next
  case (2 c cs)
  then show ?case
    by (cases cs) auto
qed

lemma tidy_drop: "tidy s \<Longrightarrow> tidy (drop n s)"
  by (induction s arbitrary: n) (auto simp: drop_Cons split: nat.splits)

lemma tidy_take: "tidy s \<Longrightarrow> tidy (take n s)"
proof (induction s arbitrary: n)
  case Nil
  show ?case by simp
next
  case (Cons c cs)
  show ?case
  proof (cases n)
    case 0
    then show ?thesis by simp
  next
    case (Suc m)
    have "take m cs = [] \<or> hd (take m cs) = hd cs"
      by (cases m; cases cs) auto
    with Cons Suc show ?thesis by auto
  qed
qed

lemma rev_dropWhile_rev_take: "\<exists>i. rev (dropWhile P (rev t)) = take i t"
proof -
  have "rev (dropWhile P (rev t)) = rev (drop (length (takeWhile P (rev t))) (rev t))"
    by (simp add: dropWhile_eq_drop)
  also have "\<dots> = take (length t - length (takeWhile P (rev t))) t"
    by (simp add: rev_drop)
  finally show ?thesis by blast
qed

lemma trim_as_take_drop: "\<exists>i j. trim s = take i (drop j s)"
proof -
  obtain i where "trim s = take i (dropWhile isWhiteSpace s)"
    unfolding trim_def using rev_dropWhile_rev_take by blast
  then show ?thesis by (metis dropWhile_eq_drop)
qed

lemma tidy_trim: "tidy s \<Longrightarrow> tidy (trim s)"
  using trim_as_take_drop [of s] by (auto simp: tidy_take tidy_drop)

lemma trim_last: "trim s \<noteq> [] \<Longrightarrow> \<not> isWhiteSpace (last (trim s))"
proof -
  assume ne: "trim s \<noteq> []"
  let ?d = "dropWhile isWhiteSpace (rev (dropWhile isWhiteSpace s))"
  from ne have "?d \<noteq> []" by (simp add: trim_def)
  then have "\<not> isWhiteSpace (hd ?d)" by (rule hd_dropWhile)
  moreover have "last (trim s) = hd ?d"
    using \<open>?d \<noteq> []\<close> by (simp add: trim_def last_rev)
  ultimately show ?thesis by simp
qed

lemma trim_hd: "trim s \<noteq> [] \<Longrightarrow> \<not> isWhiteSpace (hd (trim s))"
proof -
  assume ne: "trim s \<noteq> []"
  let ?t = "dropWhile isWhiteSpace s"
  obtain i where i: "trim s = take i ?t"
    unfolding trim_def using rev_dropWhile_rev_take by blast
  with ne have "?t \<noteq> []" and "i \<noteq> 0" by auto
  then have "hd (take i ?t) = hd ?t" by (cases i; cases ?t) auto
  moreover have "\<not> isWhiteSpace (hd ?t)" using \<open>?t \<noteq> []\<close> by (rule hd_dropWhile)
  ultimately show ?thesis using i by simp
qed

lemma dropWhile_id: "s = [] \<or> \<not> P (hd s) \<Longrightarrow> dropWhile P s = s"
  by (cases s) auto

lemma trim_fixed:
  assumes "s = [] \<or> (\<not> isWhiteSpace (hd s) \<and> \<not> isWhiteSpace (last s))"
  shows "trim s = s"
proof (cases "s = []")
  case True
  then show ?thesis by (simp add: trim_def)
next
  case False
  with assms have h: "\<not> isWhiteSpace (hd s)" and l: "\<not> isWhiteSpace (last s)" by auto
  have "dropWhile isWhiteSpace s = s" using h by (simp add: dropWhile_id)
  moreover have "dropWhile isWhiteSpace (rev s) = rev s"
    using l False by (intro dropWhile_id) (simp add: hd_rev)
  ultimately show ?thesis by (simp add: trim_def)
qed

lemma set_trim: "set (trim s) \<subseteq> set s"
proof -
  obtain i j where "trim s = take i (drop j s)" using trim_as_take_drop by blast
  then show ?thesis by (metis set_take_subset set_drop_subset subset_trans)
qed

lemma sanitizeFilename_clean: "c \<in> set (sanitizeFilename s) \<Longrightarrow> \<not> isForbidden c"
proof -
  assume "c \<in> set (sanitizeFilename s)"
  then have "c \<in> insert 0x20 (set (filter (\<lambda>c. \<not> isForbidden c) s))"
    unfolding sanitizeFilename_def using set_trim set_collapseWhiteSpace by blast
  then have "c = 0x20 \<or> \<not> isForbidden c" by auto
  moreover have "\<not> isForbidden 0x20" by (simp add: isForbidden_def)
  ultimately show ?thesis by auto
qed

lemma sanitizeFilename_idem: "sanitizeFilename (sanitizeFilename s) = sanitizeFilename s"
proof -
  let ?r = "sanitizeFilename s"
  have f: "filter (\<lambda>c. \<not> isForbidden c) ?r = ?r"
    by (simp add: sanitizeFilename_clean)
  have "tidy ?r" unfolding sanitizeFilename_def by (intro tidy_trim tidy_collapseWhiteSpace)
  then have c: "collapseWhiteSpace ?r = ?r" by (rule collapseWhiteSpace_tidy)
  have e: "?r = [] \<or> (\<not> isWhiteSpace (hd ?r) \<and> \<not> isWhiteSpace (last ?r))"
    unfolding sanitizeFilename_def using trim_hd trim_last by blast
  have "sanitizeFilename ?r = trim ?r"
    unfolding sanitizeFilename_def [of ?r] by (simp only: f c)
  also have "\<dots> = ?r" using e by (rule trim_fixed)
  finally show ?thesis .
qed

text \<open>
  C10. sanitizeFilename is idempotent; its result holds none of the characters
  \<open>< > : " / \ | ? *\<close> and neither starts nor ends with white space; hence the file name
  that epubExists tests is the file name that buildEpub writes for the same title.
\<close>

theorem sanitizeFilename_idempotent:
  "sanitizeFilename (sanitizeFilename s) = sanitizeFilename s
   \<and> (\<forall>c \<in> set (sanitizeFilename s). \<not> isForbidden c)
   \<and> (sanitizeFilename s \<noteq> [] \<longrightarrow>
        \<not> isWhiteSpace (hd (sanitizeFilename s)) \<and> \<not> isWhiteSpace (last (sanitizeFilename s)))
   \<and> epubExists_filename (sanitizeFilename s) = buildEpub_filename s
   \<and> epubExists_filename s = buildEpub_filename s"
proof -
  have "sanitizeFilename s \<noteq> [] \<longrightarrow>
        \<not> isWhiteSpace (hd (sanitizeFilename s)) \<and> \<not> isWhiteSpace (last (sanitizeFilename s))"
    unfolding sanitizeFilename_def using trim_hd trim_last by blast
  then show ?thesis
    by (simp add: sanitizeFilename_idem sanitizeFilename_clean
        epubExists_filename_def buildEpub_filename_def)
qed

theorem sanitizeFilename_idempotent_witness:
  "sanitizeFilename (js ''  a <b>:  c?  '') = js ''a b c''
   \<and> sanitizeFilename (js ''a b c'') = js ''a b c''
   \<and> list_all (\<lambda>c. \<not> isForbidden c) (js ''a b c'')
   \<and> \<not> isWhiteSpace (hd (js ''a b c'')) \<and> \<not> isWhiteSpace (last (js ''a b c''))"
proof -
  have r: "sanitizeFilename (js ''  a <b>:  c?  '') = js ''a b c''"
    by (simp add: sanitizeFilename_def js_def trim_def isForbidden_def isWhiteSpace_def)
  have ne: "js ''a b c'' \<noteq> []"
    by (simp add: js_def)
  show ?thesis
    using sanitizeFilename_idempotent [of "js ''  a <b>:  c?  ''"] ne
    unfolding r list_all_iff by blast
qed

end
